theory Spec2Isabelle
  imports Main "HOL-Library.Word" "HOL-Library.AList"
begin

section \<open>The grpc\_gcp balancer: connection pool, aggregate state, affinity table\<close>

text \<open>
  A shallow embedding of \<^verbatim>\<open>grpcgcp/gcp_balancer.go\<close>. Go maps are association lists
  read with \<open>map_of\<close> and written with \<open>AList.update\<close> and \<open>AList.delete\<close>; the
  \<^verbatim>\<open>uint64\<close> counters of the evaluator are \<open>64 word\<close> and the \<^verbatim>\<open>int32\<close> counters of a
  \<^verbatim>\<open>subConnRef\<close> are \<open>32 word\<close>, read as signed numbers with \<open>sint\<close>. A run-time panic
  of the Go code is the left summand of a result. The mutex is not modelled: every
  operation is one atomic step.
\<close>

subsection \<open>Connectivity states and the evaluator\<close>

text \<open>\<^verbatim>\<open>connectivity.State\<close>; its zero value is \<open>Idle\<close>.\<close>

datatype State = Idle | Connecting | Ready | TransientFailure | Shutdown

record ConnectivityStateEvaluator =
  numReady :: "64 word"
  numConnecting :: "64 word"
  numTransientFailure :: "64 word"

text \<open>\<^verbatim>\<open>updateVal := 2*uint64(idx) - 1\<close>: all ones for index 0, one for index 1.\<close>

definition updateVal :: "nat \<Rightarrow> 64 word" where
  "updateVal idx = 2 * of_nat idx - 1"

text \<open>The \<^verbatim>\<open>switch state\<close> of the loop body; \<open>Idle\<close> and \<open>Shutdown\<close> match no case.\<close>

fun updateCounter :: "ConnectivityStateEvaluator \<Rightarrow> nat \<times> State \<Rightarrow> ConnectivityStateEvaluator" where
  "updateCounter cse (idx, Ready) = cse\<lparr>numReady := numReady cse + updateVal idx\<rparr>"
| "updateCounter cse (idx, Connecting) = cse\<lparr>numConnecting := numConnecting cse + updateVal idx\<rparr>"
| "updateCounter cse (idx, TransientFailure) =
     cse\<lparr>numTransientFailure := numTransientFailure cse + updateVal idx\<rparr>"
| "updateCounter cse (idx, Idle) = cse"
| "updateCounter cse (idx, Shutdown) = cse"

text \<open>The \<open>// Evaluate.\<close> part of \<^verbatim>\<open>RecordTransition\<close>.\<close>

definition evaluate :: "ConnectivityStateEvaluator \<Rightarrow> State" where
  "evaluate cse =
     (if numReady cse > 0 then Ready
      else if numConnecting cse > 0 then Connecting
      else TransientFailure)"

text \<open>
  \<^verbatim>\<open>RecordTransition\<close>: the loop ranges over \<^verbatim>\<open>[]State{oldState, newState}\<close> with its
  index. The result is the updated evaluator and the returned state.
\<close>

definition RecordTransition ::
  "ConnectivityStateEvaluator \<Rightarrow> State \<Rightarrow> State \<Rightarrow> ConnectivityStateEvaluator \<times> State" where
  "RecordTransition cse oldState newState =
     (let cse' = foldl updateCounter cse (enumerate 0 [oldState, newState])
      in (cse', evaluate cse'))"

text \<open>The evaluator a balancer is built with: \<^verbatim>\<open>&ConnectivityStateEvaluator{}\<close>.\<close>

definition newEvaluator :: ConnectivityStateEvaluator where
  "newEvaluator = \<lparr>numReady = 0, numConnecting = 0, numTransientFailure = 0\<rparr>"

text \<open>
  Feeding a sequence of (old, new) pairs to one evaluator, call after call: the final
  evaluator and what the last call returned (\<open>None\<close> when there was no call).
\<close>

fun feed ::
  "ConnectivityStateEvaluator \<times> State option \<Rightarrow> (State \<times> State) list
     \<Rightarrow> ConnectivityStateEvaluator \<times> State option" where
  "feed acc [] = acc"
| "feed (cse, r) ((old, new) # ps) =
     (case RecordTransition cse old new of (cse', s) \<Rightarrow> feed (cse', Some s) ps)"

subsection \<open>The specification's view of the evaluator\<close>

text \<open>
  Following the specification's words, not the code: the evaluator tracks the connections
  that are \<open>Connecting\<close>, \<open>Ready\<close> or \<open>TransientFailure\<close>. \<open>spec_tracked\<close> is the list of
  the states of the tracked connections after a sequence of transitions: a pair
  (old, new) takes one connection out of state old and puts one into state new.
\<close>

definition counted :: "State \<Rightarrow> bool" where
  "counted s = (s = Ready \<or> s = Connecting \<or> s = TransientFailure)"

definition spec_move :: "State list \<Rightarrow> State \<times> State \<Rightarrow> State list" where
  "spec_move conns p = (if counted (snd p) then [snd p] else []) @ remove1 (fst p) conns"

definition spec_tracked :: "State list \<Rightarrow> (State \<times> State) list \<Rightarrow> State list" where
  "spec_tracked conns ps = foldl spec_move conns ps"

definition spec_aggregate :: "State list \<Rightarrow> State" where
  "spec_aggregate conns =
     (if Ready \<in> set conns then Ready
      else if Connecting \<in> set conns then Connecting
      else TransientFailure)"

text \<open>
  A sequence is well-formed for the tracked connections when every transition leaves a
  state some tracked connection is in (\<open>Idle\<close> and \<open>Shutdown\<close> are not tracked, so leaving
  them is always possible).
\<close>

fun well_formed :: "State list \<Rightarrow> (State \<times> State) list \<Rightarrow> bool" where
  "well_formed conns [] = True"
| "well_formed conns (p # ps) =
     ((\<not> counted (fst p) \<or> fst p \<in> set conns) \<and> well_formed (spec_move conns p) ps)"

text \<open>
  The invariant that ties the code's counters to the specification's tracked connections:
  each counter is the number of tracked connections in its state, as a 64-bit number.
\<close>

definition tracks :: "ConnectivityStateEvaluator \<Rightarrow> State list \<Rightarrow> bool" where
  "tracks cse conns =
     (numReady cse = of_nat (count_list conns Ready)
      \<and> numConnecting cse = of_nat (count_list conns Connecting)
      \<and> numTransientFailure cse = of_nat (count_list conns TransientFailure))"

subsection \<open>Connection references\<close>

text \<open>
  \<^verbatim>\<open>balancer.SubConn\<close> is an opaque handle created by the host runtime; a number stands
  for its identity. \<^verbatim>\<open>resolver.Address\<close> and Go's \<^verbatim>\<open>error\<close> are strings.
\<close>

type_synonym SubConn = nat
type_synonym Address = string
type_synonym goError = string

record subConnRef =
  subConn :: SubConn
  affinityCnt :: "32 word"
  streamsCnt :: "32 word"

text \<open>\<^verbatim>\<open>atomic.AddInt32(&ref.affinityCnt, 1)\<close> and its three siblings.\<close>

definition affinityIncr :: "subConnRef \<Rightarrow> subConnRef" where
  "affinityIncr ref = ref\<lparr>affinityCnt := affinityCnt ref + 1\<rparr>"

definition affinityDecr :: "subConnRef \<Rightarrow> subConnRef" where
  "affinityDecr ref = ref\<lparr>affinityCnt := affinityCnt ref + (- 1)\<rparr>"

definition streamsIncr :: "subConnRef \<Rightarrow> subConnRef" where
  "streamsIncr ref = ref\<lparr>streamsCnt := streamsCnt ref + 1\<rparr>"

definition streamsDecr :: "subConnRef \<Rightarrow> subConnRef" where
  "streamsDecr ref = ref\<lparr>streamsCnt := streamsCnt ref + (- 1)\<rparr>"

subsection \<open>The balancer\<close>

text \<open>
  Modelled from the spec: the pickers. \<^verbatim>\<open>newErrPicker\<close> and \<^verbatim>\<open>newGCPPicker\<close> are not
  in \<^verbatim>\<open>gcp_balancer.go\<close>. By the specification one picker fails every call with a
  fixed error and the other holds a snapshot of the ready refs, so a picker is
  represented by the arguments it was built from. The ready refs are handed over as
  pointers: \<open>None\<close> is a nil pointer, \<open>Some ref\<close> shows the ref as it was when the picker
  was built.
\<close>

datatype pickError = ErrNoSubConnAvailable | ErrTransientFailure

datatype Picker = errPicker pickError | gcpPicker "subConnRef option list"

text \<open>
  The calls the balancer makes on the host runtime (\<^verbatim>\<open>cc.NewSubConn\<close>,
  \<^verbatim>\<open>sc.Connect\<close>, \<^verbatim>\<open>sc.UpdateAddresses\<close>, \<^verbatim>\<open>cc.UpdateBalancerState\<close>); the field \<open>cc\<close> of
  the balancer records them in order.
\<close>

datatype hostCall =
    CallNewSubConn "Address list" bool
  | CallConnect SubConn
  | CallUpdateAddresses SubConn "Address list"
  | CallUpdateBalancerState State Picker

datatype panic = NilPointerDereference

record gcpBalancer =
  addrs :: "Address list"
  cc :: "hostCall list"
  csEvltr :: ConnectivityStateEvaluator
  state :: State
  affinityMap :: "(string \<times> SubConn) list"
  scStates :: "(SubConn \<times> State) list"
  scRefs :: "(SubConn \<times> subConnRef) list"
  picker :: Picker

definition healthCheckEnabled :: bool where
  "healthCheckEnabled = True"

text \<open>\<^verbatim>\<open>gcpBalancerBuilder.Build\<close>: empty maps, zero values elsewhere.\<close>

definition Build :: gcpBalancer where
  "Build = \<lparr>addrs = [], cc = [], csEvltr = newEvaluator, state = Idle, affinityMap = [],
     scStates = [], scRefs = [], picker = errPicker ErrNoSubConnAvailable\<rparr>"

text \<open>Reading a Go map of states: a missing key reads as the zero value \<open>Idle\<close>.\<close>

definition stateOf :: "gcpBalancer \<Rightarrow> SubConn \<Rightarrow> State" where
  "stateOf gb sc = (case map_of (scStates gb) sc of None \<Rightarrow> Idle | Some s \<Rightarrow> s)"

text \<open>
  \<^verbatim>\<open>newSubConn\<close>. The first argument is what \<^verbatim>\<open>cc.NewSubConn\<close> returns when it is called:
  an error or a handle.
\<close>

definition newSubConn :: "goError + SubConn \<Rightarrow> gcpBalancer \<Rightarrow> gcpBalancer" where
  "newSubConn created gb =
     (if Connecting \<in> snd ` set (scStates gb) then gb
      else
        let gb1 = gb\<lparr>cc := cc gb @ [CallNewSubConn (addrs gb) healthCheckEnabled]\<rparr> in
        (case created of
           Inl err \<Rightarrow> gb1
         | Inr sc \<Rightarrow>
             gb1\<lparr>scRefs := AList.update sc \<lparr>subConn = sc, affinityCnt = 0, streamsCnt = 0\<rparr> (scRefs gb1),
                 scStates := AList.update sc Idle (scStates gb1),
                 cc := cc gb1 @ [CallConnect sc]\<rparr>))"

text \<open>
  \<^verbatim>\<open>HandleResolvedAddrs\<close>. Go ranges over a map in no fixed order; the model follows the
  order of the association list.
\<close>

definition HandleResolvedAddrs ::
  "Address list \<Rightarrow> goError option \<Rightarrow> goError + SubConn \<Rightarrow> gcpBalancer \<Rightarrow> gcpBalancer" where
  "HandleResolvedAddrs as err created gb =
     (if err \<noteq> None then gb
      else
        let gb1 = gb\<lparr>addrs := as\<rparr> in
        if length (scRefs gb1) = 0 then newSubConn created gb1
        else gb1\<lparr>cc := cc gb1 @
               concat (map (\<lambda>(sc, scRef). [CallUpdateAddresses (subConn scRef) as,
                                            CallConnect (subConn scRef)]) (scRefs gb1))\<rparr>)"

definition getConnectionPoolSize :: "gcpBalancer \<Rightarrow> nat" where
  "getConnectionPoolSize gb = length (scRefs gb)"

text \<open>\<^verbatim>\<open>getReadySubConnRef\<close>: the ref (\<open>None\<close> for nil) and the flag.\<close>

definition getReadySubConnRef :: "string \<Rightarrow> gcpBalancer \<Rightarrow> subConnRef option \<times> bool" where
  "getReadySubConnRef boundKey gb =
     (case map_of (affinityMap gb) boundKey of
        Some sc \<Rightarrow>
          if stateOf gb sc \<noteq> Ready then (None, True)
          else (map_of (scRefs gb) sc, True)
      | None \<Rightarrow> (None, False))"

text \<open>
  \<^verbatim>\<open>bindSubConn\<close>. \<^verbatim>\<open>gb.scRefs[sc]\<close> is nil for a handle that is not in the map, and
  \<^verbatim>\<open>affinityIncr\<close> on nil dereferences it: a panic.
\<close>

definition bindSubConn :: "string \<Rightarrow> SubConn \<Rightarrow> gcpBalancer \<Rightarrow> panic + gcpBalancer" where
  "bindSubConn bindKey sc gb =
     (let gb1 = (case map_of (affinityMap gb) bindKey of
                   None \<Rightarrow> gb\<lparr>affinityMap := AList.update bindKey sc (affinityMap gb)\<rparr>
                 | Some _ \<Rightarrow> gb)
      in case map_of (scRefs gb1) sc of
           None \<Rightarrow> Inl NilPointerDereference
         | Some ref \<Rightarrow> Inr (gb1\<lparr>scRefs := AList.update sc (affinityIncr ref) (scRefs gb1)\<rparr>))"

text \<open>\<^verbatim>\<open>unbindSubConn\<close>; \<^verbatim>\<open>affinityCnt <= 0\<close> compares signed numbers.\<close>

definition unbindSubConn :: "string \<Rightarrow> gcpBalancer \<Rightarrow> panic + gcpBalancer" where
  "unbindSubConn boundKey gb =
     (case map_of (affinityMap gb) boundKey of
        None \<Rightarrow> Inr gb
      | Some boundSC \<Rightarrow>
          (case map_of (scRefs gb) boundSC of
             None \<Rightarrow> Inl NilPointerDereference
           | Some ref \<Rightarrow>
               let gb1 = gb\<lparr>scRefs := AList.update boundSC (affinityDecr ref) (scRefs gb)\<rparr> in
               (case map_of (scRefs gb1) boundSC of
                  None \<Rightarrow> Inl NilPointerDereference
                | Some ref' \<Rightarrow>
                    if sint (affinityCnt ref') \<le> 0
                    then Inr (gb1\<lparr>affinityMap := AList.delete boundKey (affinityMap gb1)\<rparr>)
                    else Inr gb1)))"

text \<open>\<^verbatim>\<open>regeneratePicker\<close>.\<close>

definition regeneratePicker :: "gcpBalancer \<Rightarrow> gcpBalancer" where
  "regeneratePicker gb =
     (if state gb = TransientFailure then gb\<lparr>picker := errPicker ErrTransientFailure\<rparr>
      else
        let readyRefs = map (\<lambda>(sc, scState). map_of (scRefs gb) sc)
                          (filter (\<lambda>(sc, scState). scState = Ready) (scStates gb))
        in gb\<lparr>picker := gcpPicker readyRefs\<rparr>)"

text \<open>\<^verbatim>\<open>HandleSubConnStateChange\<close>.\<close>

definition HandleSubConnStateChange :: "SubConn \<Rightarrow> State \<Rightarrow> gcpBalancer \<Rightarrow> gcpBalancer" where
  "HandleSubConnStateChange sc s gb =
     (case map_of (scStates gb) sc of
        None \<Rightarrow> gb
      | Some oldS \<Rightarrow>
          let gb1 = gb\<lparr>scStates := AList.update sc s (scStates gb)\<rparr>;
              gb2 = (case s of
                       Idle \<Rightarrow> gb1\<lparr>cc := cc gb1 @ [CallConnect sc]\<rparr>
                     | Shutdown \<Rightarrow> gb1\<lparr>scRefs := AList.delete sc (scRefs gb1),
                                       scStates := AList.delete sc (scStates gb1)\<rparr>
                     | _ \<Rightarrow> gb1);
              oldAggrState = state gb2;
              gb3 = (case RecordTransition (csEvltr gb2) oldS s of
                       (cse', aggr) \<Rightarrow> gb2\<lparr>csEvltr := cse', state := aggr\<rparr>)
          in if (s = Ready) \<noteq> (oldS = Ready)
                \<or> (state gb3 = TransientFailure) \<noteq> (oldAggrState = TransientFailure)
             then let gb4 = regeneratePicker gb3
                  in gb4\<lparr>cc := cc gb4 @ [CallUpdateBalancerState (state gb4) (picker gb4)]\<rparr>
             else gb3)"

definition Close :: "gcpBalancer \<Rightarrow> gcpBalancer" where
  "Close gb = gb"

subsection \<open>Runs of the balancer\<close>

text \<open>
  One event per operation that the host runtime or the picker can invoke on the
  balancer and its refs.
\<close>

datatype event =
    EvHandleResolvedAddrs "Address list" "goError option" "goError + SubConn"
  | EvNewSubConn "goError + SubConn"
  | EvGetReadySubConnRef string
  | EvBindSubConn string SubConn
  | EvUnbindSubConn string
  | EvHandleSubConnStateChange SubConn State
  | EvStreamsIncr SubConn
  | EvStreamsDecr SubConn
  | EvClose

text \<open>
  Modelled from the spec: opening and closing a stream. The calls of \<^verbatim>\<open>streamsIncr\<close>
  and \<^verbatim>\<open>streamsDecr\<close> are in the picker, which is not in \<^verbatim>\<open>gcp_balancer.go\<close>. By the
  specification the per-call path updates the counts of the ref it selected, without the
  lock. The event names the handle the ref is registered under; a ref that is no longer
  registered is out of the balancer's sight, and the step leaves the balancer as it is.
\<close>

definition onRef :: "(subConnRef \<Rightarrow> subConnRef) \<Rightarrow> SubConn \<Rightarrow> gcpBalancer \<Rightarrow> gcpBalancer" where
  "onRef f sc gb =
     (case map_of (scRefs gb) sc of
        None \<Rightarrow> gb
      | Some ref \<Rightarrow> gb\<lparr>scRefs := AList.update sc (f ref) (scRefs gb)\<rparr>)"

fun step :: "event \<Rightarrow> gcpBalancer \<Rightarrow> panic + gcpBalancer" where
  "step (EvHandleResolvedAddrs as err created) gb = Inr (HandleResolvedAddrs as err created gb)"
| "step (EvNewSubConn created) gb = Inr (newSubConn created gb)"
| "step (EvGetReadySubConnRef boundKey) gb = Inr gb"
| "step (EvBindSubConn bindKey sc) gb = bindSubConn bindKey sc gb"
| "step (EvUnbindSubConn boundKey) gb = unbindSubConn boundKey gb"
| "step (EvHandleSubConnStateChange sc s) gb = Inr (HandleSubConnStateChange sc s gb)"
| "step (EvStreamsIncr sc) gb = Inr (onRef streamsIncr sc gb)"
| "step (EvStreamsDecr sc) gb = Inr (onRef streamsDecr sc gb)"
| "step EvClose gb = Inr (Close gb)"

text \<open>A panic ends the run.\<close>

fun run :: "gcpBalancer \<Rightarrow> event list \<Rightarrow> panic + gcpBalancer" where
  "run gb [] = Inr gb"
| "run gb (e # es) = (case step e gb of Inl p \<Rightarrow> Inl p | Inr gb' \<Rightarrow> run gb' es)"

text \<open>The handle an event makes the host runtime hand out, if any.\<close>

fun created :: "event \<Rightarrow> SubConn option" where
  "created (EvHandleResolvedAddrs as err (Inr sc)) = Some sc"
| "created (EvNewSubConn (Inr sc)) = Some sc"
| "created _ = None"

subsection \<open>Predicates on states and runs\<close>

text \<open>The number of tracked connections whose recorded state is \<open>Connecting\<close>.\<close>

definition connectingCount :: "gcpBalancer \<Rightarrow> nat" where
  "connectingCount gb = length (filter (\<lambda>(sc, s). s = Connecting) (scStates gb))"

text \<open>The keys that a run binds at least once.\<close>

fun boundKeys :: "event list \<Rightarrow> string set" where
  "boundKeys [] = {}"
| "boundKeys (EvBindSubConn bindKey sc # es) = insert bindKey (boundKeys es)"
| "boundKeys (e # es) = boundKeys es"

text \<open>
  The usage a run has to keep for the affinity counts to stay meaningful. Before every
  event: no two keys are bound to the same handle, and a handle the host runtime hands
  out is new (it is not tracked and no key is bound to it).
\<close>

definition freshHandle :: "SubConn \<Rightarrow> gcpBalancer \<Rightarrow> bool" where
  "freshHandle sc gb = (sc \<notin> fst ` set (scRefs gb) \<and> sc \<notin> snd ` set (affinityMap gb))"

definition freshCreated :: "event \<Rightarrow> gcpBalancer \<Rightarrow> bool" where
  "freshCreated e gb = (case created e of None \<Rightarrow> True | Some sc \<Rightarrow> freshHandle sc gb)"

definition oneKeyPerHandle :: "gcpBalancer \<Rightarrow> bool" where
  "oneKeyPerHandle gb = distinct (map snd (affinityMap gb))"

fun disciplined :: "gcpBalancer \<Rightarrow> event list \<Rightarrow> bool" where
  "disciplined gb [] = True"
| "disciplined gb (e # es) =
     (oneKeyPerHandle gb \<and> freshCreated e gb \<and>
      (case step e gb of
         Inl p \<Rightarrow> True
       | Inr gb' \<Rightarrow> disciplined gb' es))"

text \<open>
  The usage of streams: a stream is closed only on a ref that has a stream open.
\<close>

fun closesOpen :: "event \<Rightarrow> gcpBalancer \<Rightarrow> bool" where
  "closesOpen (EvStreamsDecr sc) gb =
     (case map_of (scRefs gb) sc of None \<Rightarrow> True | Some ref \<Rightarrow> 0 < sint (streamsCnt ref))"
| "closesOpen e gb = True"

fun streamsPaired :: "gcpBalancer \<Rightarrow> event list \<Rightarrow> bool" where
  "streamsPaired gb [] = True"
| "streamsPaired gb (e # es) =
     (closesOpen e gb \<and>
      (case step e gb of
         Inl p \<Rightarrow> True
       | Inr gb' \<Rightarrow> streamsPaired gb' es))"

text \<open>
  The invariant of disciplined runs: a key bound to a tracked connection finds a
  positive affinity count there, and the affinity count of every tracked connection
  lies between 0 and \<open>n\<close>.
\<close>

definition affinityInv :: "int \<Rightarrow> gcpBalancer \<Rightarrow> bool" where
  "affinityInv n gb =
     ((\<forall>k sc ref. map_of (affinityMap gb) k = Some sc \<and> map_of (scRefs gb) sc = Some ref
          \<longrightarrow> 0 < sint (affinityCnt ref))
      \<and> (\<forall>sc ref. map_of (scRefs gb) sc = Some ref
          \<longrightarrow> 0 \<le> sint (affinityCnt ref) \<and> sint (affinityCnt ref) \<le> n))"

text \<open>
  The invariant of runs that pair their streams: the stream count of every tracked
  connection lies between 0 and \<open>n\<close>.
\<close>

definition streamsInv :: "int \<Rightarrow> gcpBalancer \<Rightarrow> bool" where
  "streamsInv n gb =
     (\<forall>sc ref. map_of (scRefs gb) sc = Some ref
          \<longrightarrow> 0 \<le> sint (streamsCnt ref) \<and> sint (streamsCnt ref) \<le> n)"

text \<open>The state map and the ref map have the same keys.\<close>

definition sameKeys :: "gcpBalancer \<Rightarrow> bool" where
  "sameKeys gb = (\<forall>sc. (map_of (scStates gb) sc = None) = (map_of (scRefs gb) sc = None))"

text \<open>A binding of \<open>boundKey\<close> to a handle that is no longer tracked.\<close>

definition staleBinding :: "string \<Rightarrow> SubConn \<Rightarrow> gcpBalancer \<Rightarrow> bool" where
  "staleBinding boundKey sc gb =
     (map_of (affinityMap gb) boundKey = Some sc
      \<and> map_of (scStates gb) sc = None \<and> map_of (scRefs gb) sc = None)"

subsection \<open>Facts about the evaluator\<close>

lemma updateVal_0: "updateVal 0 = - 1"
  by (simp add: updateVal_def)

lemma updateVal_1: "updateVal (Suc 0) = 1"
  by (simp add: updateVal_def)

lemma RecordTransition_unfold:
  "RecordTransition cse old new =
     (updateCounter (updateCounter cse (0, old)) (Suc 0, new),
      evaluate (updateCounter (updateCounter cse (0, old)) (Suc 0, new)))"
  by (simp add: RecordTransition_def Let_def)

lemma numReady_RecordTransition:
  "numReady (fst (RecordTransition cse old new)) =
     numReady cse - (if old = Ready then 1 else 0) + (if new = Ready then 1 else 0)"
  by (cases old; cases new) (simp_all add: RecordTransition_unfold updateVal_0 updateVal_1)

lemma numConnecting_RecordTransition:
  "numConnecting (fst (RecordTransition cse old new)) =
     numConnecting cse - (if old = Connecting then 1 else 0) + (if new = Connecting then 1 else 0)"
  by (cases old; cases new) (simp_all add: RecordTransition_unfold updateVal_0 updateVal_1)

lemma numTransientFailure_RecordTransition:
  "numTransientFailure (fst (RecordTransition cse old new)) =
     numTransientFailure cse - (if old = TransientFailure then 1 else 0)
       + (if new = TransientFailure then 1 else 0)"
  by (cases old; cases new) (simp_all add: RecordTransition_unfold updateVal_0 updateVal_1)

lemma snd_RecordTransition:
  "snd (RecordTransition cse old new) = evaluate (fst (RecordTransition cse old new))"
  by (simp add: RecordTransition_def Let_def)

text \<open>
  C2. The evaluator keeps three counters that are never negative (they are unsigned
  64-bit numbers). A call \<open>RecordTransition old new\<close> subtracts one from the counter of
  \<open>old\<close> and adds one to the counter of \<open>new\<close>, in arithmetic modulo \<open>2 ^ 64\<close>; \<open>Idle\<close> and
  \<open>Shutdown\<close> have no counter. The call always returns, for every pair, also when
  \<open>old = new\<close>, where the counters are left as they were.
\<close>

theorem C2_counters_updated:
  "(\<exists>cse' s. RecordTransition cse old new = (cse', s)
      \<and> numReady cse' = numReady cse - of_bool (old = Ready) + of_bool (new = Ready)
      \<and> numConnecting cse' =
          numConnecting cse - of_bool (old = Connecting) + of_bool (new = Connecting)
      \<and> numTransientFailure cse' =
          numTransientFailure cse - of_bool (old = TransientFailure)
            + of_bool (new = TransientFailure)
      \<and> 0 \<le> uint (numReady cse') \<and> 0 \<le> uint (numConnecting cse')
      \<and> 0 \<le> uint (numTransientFailure cse'))
   \<and> fst (RecordTransition cse old old) = cse
   \<and> unat (numReady (fst (RecordTransition cse Ready Idle))) = (unat (numReady cse) + (2 ^ 64 - 1)) mod 2 ^ 64
   \<and> fst (RecordTransition cse Idle Shutdown) = cse"
proof -
  obtain cse' s where r: "RecordTransition cse old new = (cse', s)"
    by (cases "RecordTransition cse old new")
  have f: "cse' = fst (RecordTransition cse old new)"
    by (simp add: r)
  have a: "numReady cse' = numReady cse - of_bool (old = Ready) + of_bool (new = Ready)"
    unfolding f numReady_RecordTransition by simp
  have b: "numConnecting cse' =
      numConnecting cse - of_bool (old = Connecting) + of_bool (new = Connecting)"
    unfolding f numConnecting_RecordTransition by simp
  have c: "numTransientFailure cse' =
      numTransientFailure cse - of_bool (old = TransientFailure) + of_bool (new = TransientFailure)"
    unfolding f numTransientFailure_RecordTransition by simp
  have same: "fst (RecordTransition cse old old) = cse"
    by (cases old) (simp_all add: RecordTransition_unfold updateVal_0 updateVal_1)
  have wrap: "unat (numReady (fst (RecordTransition cse Ready Idle)))
      = (unat (numReady cse) + (2 ^ 64 - 1)) mod 2 ^ 64"
  proof -
    have "numReady (fst (RecordTransition cse Ready Idle)) = numReady cse + (- 1)"
      by (simp add: numReady_RecordTransition)
    then have "unat (numReady (fst (RecordTransition cse Ready Idle)))
        = (unat (numReady cse) + unat (- 1 :: 64 word)) mod 2 ^ 64"
      by (simp only: unat_word_ariths) simp
    then show ?thesis
      by (simp add: unsigned_minus_1_eq_mask mask_eq_exp_minus_1)
  qed
  have none: "fst (RecordTransition cse Idle Shutdown) = cse"
    by (simp add: RecordTransition_unfold)
  from r a b c same wrap none show ?thesis by simp
qed

lemma count_list_remove1:
  "x \<in> set xs \<Longrightarrow> count_list (remove1 x xs) y = count_list xs y - of_bool (x = y)"
  by (induction xs) auto

lemma count_list_pos: "x \<in> set xs \<Longrightarrow> 0 < count_list xs x"
  by (induction xs) auto

lemma of_nat_count_remove1:
  assumes "\<not> counted old \<or> old \<in> set conns" and "counted y"
  shows "(of_nat (count_list (remove1 old conns) y) :: 64 word)
           = of_nat (count_list conns y) - of_bool (old = y)"
proof (cases "old = y")
  case True
  with assms have m: "old \<in> set conns" by simp
  from count_list_pos [OF m] True have "0 < count_list conns y" by simp
  then have "of_nat (count_list conns y - 1) = (of_nat (count_list conns y) :: 64 word) - 1"
    by (simp add: of_nat_diff)
  with True m show ?thesis by (simp add: count_list_remove1)
next
  case False
  show ?thesis
  proof (cases "old \<in> set conns")
    case True
    with False show ?thesis by (simp add: count_list_remove1)
  next
    case False
    then show ?thesis using \<open>old \<noteq> y\<close> by (simp add: remove1_idem)
  qed
qed

lemma of_nat_count_spec_move:
  assumes "\<not> counted old \<or> old \<in> set conns" and "counted y"
  shows "(of_nat (count_list (spec_move conns (old, new)) y) :: 64 word)
           = of_nat (count_list conns y) - of_bool (old = y) + of_bool (new = y)"
proof -
  have "count_list (spec_move conns (old, new)) y
      = of_bool (new = y) + count_list (remove1 old conns) y"
    using assms(2) by (auto simp add: spec_move_def counted_def)
  then have "(of_nat (count_list (spec_move conns (old, new)) y) :: 64 word)
      = of_bool (new = y) + of_nat (count_list (remove1 old conns) y)"
    by simp
  also have "\<dots> = of_bool (new = y) + (of_nat (count_list conns y) - of_bool (old = y))"
    by (simp only: of_nat_count_remove1 [OF assms])
  finally show ?thesis by simp
qed

lemma tracks_step:
  assumes "tracks cse conns" and "\<not> counted old \<or> old \<in> set conns"
  shows "tracks (fst (RecordTransition cse old new)) (spec_move conns (old, new))"
  using assms(1) unfolding tracks_def
  by (simp add: numReady_RecordTransition numConnecting_RecordTransition
      numTransientFailure_RecordTransition of_nat_count_spec_move [OF assms(2)] counted_def eq_commute)

lemma length_spec_move: "length (spec_move conns p) \<le> Suc (length conns)"
  by (auto simp add: spec_move_def length_remove1)

lemma length_spec_tracked: "length (spec_tracked conns ps) \<le> length conns + length ps"
  unfolding spec_tracked_def
proof (induction ps arbitrary: conns)
  case Nil
  show ?case by simp
next
  case (Cons p ps)
  have "length (foldl spec_move (spec_move conns p) ps) \<le> length (spec_move conns p) + length ps"
    by (rule Cons.IH)
  with length_spec_move [of conns p] show ?case by simp
qed

lemma feed_tracks:
  "tracks cse conns \<Longrightarrow> well_formed conns ps \<Longrightarrow>
     tracks (fst (feed (cse, r) ps)) (spec_tracked conns ps)"
proof (induction ps arbitrary: cse conns r)
  case Nil
  then show ?case by (simp add: spec_tracked_def)
next
  case (Cons p ps)
  obtain old new where p: "p = (old, new)" by (cases p)
  obtain cse' s where rt: "RecordTransition cse old new = (cse', s)"
    by (cases "RecordTransition cse old new")
  from Cons.prems p have ok: "\<not> counted old \<or> old \<in> set conns"
    and wf: "well_formed (spec_move conns (old, new)) ps" by simp_all
  have "tracks cse' (spec_move conns (old, new))"
    using tracks_step [OF Cons.prems(1) ok, of new] by (simp add: rt)
  from Cons.IH [OF this wf, of "Some s"] show ?case
    by (simp add: p rt spec_tracked_def)
qed

lemma feed_last:
  "ps \<noteq> [] \<Longrightarrow> snd (feed (cse, r) ps) = Some (evaluate (fst (feed (cse, r) ps)))"
proof (induction ps arbitrary: cse r)
  case Nil
  then show ?case by simp
next
  case (Cons p ps)
  obtain old new where p: "p = (old, new)" by (cases p)
  obtain cse' s where rt: "RecordTransition cse old new = (cse', s)"
    by (cases "RecordTransition cse old new")
  from snd_RecordTransition [of cse old new] rt have s: "s = evaluate cse'" by simp
  show ?case
  proof (cases "ps = []")
    case True
    then show ?thesis by (simp add: p rt s)
  next
    case False
    from Cons.IH [OF False, of cse' "Some s"] show ?thesis by (simp add: p rt)
  qed
qed

lemma word64_of_nat_pos:
  "n < 2 ^ 64 \<Longrightarrow> (0 < (of_nat n :: 64 word)) = (0 < n)"
proof -
  assume b: "n < 2 ^ 64"
  have "(of_nat n = (0 :: 64 word)) = (2 ^ 64 dvd n)"
    by (simp add: word_of_nat_eq_0_iff)
  also have "\<dots> = (n = 0)"
    using b by (auto dest: dvd_imp_le)
  finally show ?thesis
    by (simp add: word_greater_zero_iff)
qed

lemma count_list_pos_iff: "(0 < count_list xs x) = (x \<in> set xs)"
  by (induction xs) auto

lemma evaluate_tracks:
  assumes "tracks cse conns" and "length conns < 2 ^ 64"
  shows "evaluate cse = spec_aggregate conns"
proof -
  have le: "count_list conns y \<le> length conns" for y
    by (rule count_le_length)
  have pos: "(0 < (of_nat (count_list conns y) :: 64 word)) = (y \<in> set conns)" for y
    using le [of y] assms(2) by (simp add: word64_of_nat_pos count_list_pos_iff)
  from assms(1) show ?thesis
    by (simp add: tracks_def evaluate_def spec_aggregate_def pos)
qed


text \<open>
  C1, as amended. Feed a fresh evaluator a non-empty sequence of fewer than \<open>2 ^ 64\<close>
  transitions in which every transition leaves a state that some tracked connection is
  in. Then the last call returns \<open>Ready\<close> if a tracked connection is \<open>Ready\<close>, else
  \<open>Connecting\<close> if one is \<open>Connecting\<close>, else \<open>TransientFailure\<close>.
\<close>

theorem C1_aggregate_of_tracked:
  assumes "ps \<noteq> []" and "well_formed [] ps" and "length ps < 2 ^ 64"
  shows "snd (feed (newEvaluator, None) ps) =
     Some (if Ready \<in> set (spec_tracked [] ps) then Ready
           else if Connecting \<in> set (spec_tracked [] ps) then Connecting
           else TransientFailure)"
proof -
  have "tracks newEvaluator []"
    by (simp add: tracks_def newEvaluator_def)
  from feed_tracks [OF this assms(2)]
  have t: "tracks (fst (feed (newEvaluator, None) ps)) (spec_tracked [] ps)" .
  from length_spec_tracked [of "[]" ps] assms(3)
  have "length (spec_tracked [] ps) < 2 ^ 64" by simp
  from evaluate_tracks [OF t this] feed_last [OF assms(1), of newEvaluator None]
  show ?thesis by (simp add: spec_aggregate_def)
qed

theorem C1_aggregate_of_tracked_witness:
  "well_formed [] [(Idle, Connecting), (Connecting, Ready), (Idle, Connecting)]
   \<and> snd (feed (newEvaluator, None) [(Idle, Connecting), (Connecting, Ready), (Idle, Connecting)])
       = Some Ready"
  using C1_aggregate_of_tracked [of "[(Idle, Connecting), (Connecting, Ready), (Idle, Connecting)]"]
  by (simp add: spec_tracked_def spec_move_def counted_def)

text \<open>
  C1 as stated fails: the single transition (\<open>Ready\<close>, \<open>Idle\<close>) fed to a fresh evaluator
  wraps \<open>numReady\<close> around to \<open>2 ^ 64 - 1\<close>, so the call returns \<open>Ready\<close> although no
  tracked connection is \<open>Ready\<close>.
\<close>

theorem C1_counterexample:
  "snd (feed (newEvaluator, None) [(Ready, Idle)]) = Some Ready
   \<and> Ready \<notin> set (spec_tracked [] [(Ready, Idle)])"
  by (simp add: newEvaluator_def RecordTransition_unfold updateVal_0 updateVal_1 evaluate_def
      spec_tracked_def spec_move_def counted_def word_greater_zero_iff)

subsection \<open>Binding and unbinding\<close>

lemma sint32_incr:
  "sint (w :: 32 word) < 2 ^ 31 - 1 \<Longrightarrow> sint (w + 1) = sint w + 1"
proof -
  assume a: "sint w < 2 ^ 31 - 1"
  have lo: "- (2 ^ 31) \<le> sint w"
    using sint_ge [of w] by simp
  have "sint (w + 1) = signed_take_bit 31 (sint w + 1)"
    by (simp add: sint_word_ariths)
  also have "\<dots> = sint w + 1"
    using a lo by (simp add: signed_take_bit_int_eq_self)
  finally show ?thesis .
qed

lemma sint32_decr:
  "- (2 ^ 31) < sint (w :: 32 word) \<Longrightarrow> sint (w + (- 1)) = sint w - 1"
proof -
  assume a: "- (2 ^ 31) < sint w"
  have hi: "sint w < 2 ^ 31"
    using sint_lt [of w] by simp
  have "sint (w + (- 1)) = signed_take_bit 31 (sint w + (- 1))"
    by (simp add: sint_word_ariths)
  also have "\<dots> = sint w - 1"
    using a hi by (simp add: signed_take_bit_int_eq_self)
  finally show ?thesis .
qed

lemma bindSubConn_tracked:
  assumes "map_of (scRefs gb) sc = Some ref"
  shows "bindSubConn bindKey sc gb =
     Inr (gb\<lparr>affinityMap := (if map_of (affinityMap gb) bindKey = None
                              then AList.update bindKey sc (affinityMap gb) else affinityMap gb),
             scRefs := AList.update sc (ref\<lparr>affinityCnt := affinityCnt ref + 1\<rparr>) (scRefs gb)\<rparr>)"
  using assms by (cases "map_of (affinityMap gb) bindKey") (simp_all add: bindSubConn_def affinityIncr_def)

lemma bindSubConn_untracked:
  "map_of (scRefs gb) sc = None \<Longrightarrow> bindSubConn bindKey sc gb = Inl NilPointerDereference"
  by (cases "map_of (affinityMap gb) bindKey") (simp_all add: bindSubConn_def)

lemma unbindSubConn_unbound:
  "map_of (affinityMap gb) boundKey = None \<Longrightarrow> unbindSubConn boundKey gb = Inr gb"
  by (simp add: unbindSubConn_def)

lemma unbindSubConn_tracked:
  assumes "map_of (affinityMap gb) boundKey = Some sc" and "map_of (scRefs gb) sc = Some ref"
  shows "unbindSubConn boundKey gb =
     Inr (gb\<lparr>scRefs := AList.update sc (ref\<lparr>affinityCnt := affinityCnt ref - 1\<rparr>) (scRefs gb),
             affinityMap := (if sint (affinityCnt ref - 1) \<le> 0
                             then AList.delete boundKey (affinityMap gb) else affinityMap gb)\<rparr>)"
  using assms by (simp add: unbindSubConn_def affinityDecr_def Let_def update_conv')

lemma unbindSubConn_untracked:
  "map_of (affinityMap gb) boundKey = Some sc \<Longrightarrow> map_of (scRefs gb) sc = None \<Longrightarrow>
     unbindSubConn boundKey gb = Inl NilPointerDereference"
  by (simp add: unbindSubConn_def)

text \<open>
  C3. For a handle that has a ref in the balancer, \<open>bindSubConn\<close> inserts the mapping
  from the key to the handle only when the key is unbound, and in every case, also when
  the key is already bound (to this or to another handle), adds one to the affinity count
  of the handle's ref, in 32-bit signed arithmetic. Nothing else changes.
\<close>

theorem C3_bind:
  assumes "map_of (scRefs gb) sc = Some ref"
  shows "\<exists>gb' ref'. bindSubConn bindKey sc gb = Inr gb'
     \<and> map_of (affinityMap gb') =
         (if map_of (affinityMap gb) bindKey = None then (map_of (affinityMap gb))(bindKey \<mapsto> sc)
          else map_of (affinityMap gb))
     \<and> map_of (scRefs gb') sc = Some ref'
     \<and> affinityCnt ref' = affinityCnt ref + 1
     \<and> (sint (affinityCnt ref) < 2 ^ 31 - 1 \<longrightarrow> sint (affinityCnt ref') = sint (affinityCnt ref) + 1)
     \<and> streamsCnt ref' = streamsCnt ref \<and> subConn ref' = subConn ref
     \<and> (\<forall>sc'. sc' \<noteq> sc \<longrightarrow> map_of (scRefs gb') sc' = map_of (scRefs gb) sc')
     \<and> scStates gb' = scStates gb"
  by (simp add: bindSubConn_tracked [OF assms] update_conv' sint32_incr)

theorem C3_bind_witness:
  "map_of (scRefs (newSubConn (Inr 1) Build)) 1 = Some \<lparr>subConn = 1, affinityCnt = 0, streamsCnt = 0\<rparr>
   \<and> (\<exists>gb' ref'. bindSubConn ''k'' 1 (newSubConn (Inr 1) Build) = Inr gb'
        \<and> map_of (affinityMap gb') ''k'' = Some 1
        \<and> map_of (scRefs gb') 1 = Some ref' \<and> affinityCnt ref' = 1 \<and> sint (affinityCnt ref') = 1)"
proof -
  have t: "map_of (scRefs (newSubConn (Inr 1) Build)) 1 = Some \<lparr>subConn = 1, affinityCnt = 0, streamsCnt = 0\<rparr>"
    by (simp add: newSubConn_def Build_def Let_def)
  have e: "map_of (affinityMap (newSubConn (Inr 1) Build)) ''k'' = None"
    by (simp add: newSubConn_def Build_def Let_def)
  from C3_bind [OF t, of "''k''"] e t show ?thesis
    by auto
qed

lemma scenario_C:
  assumes e: "affinityMap gb = []" and t: "map_of (scRefs gb) C = Some ref" and z: "affinityCnt ref = 0"
  shows "\<exists>g1 g2 g3 g4.
       bindSubConn ''session1'' C gb = Inr g1 \<and> bindSubConn ''session1'' C g1 = Inr g2
     \<and> map_option affinityCnt (map_of (scRefs g2) C) = Some 2
     \<and> map_of (affinityMap g2) ''session1'' = Some C
     \<and> unbindSubConn ''session1'' g2 = Inr g3
     \<and> map_option affinityCnt (map_of (scRefs g3) C) = Some 1
     \<and> map_of (affinityMap g3) ''session1'' = Some C
     \<and> unbindSubConn ''session1'' g3 = Inr g4
     \<and> map_option affinityCnt (map_of (scRefs g4) C) = Some 0
     \<and> map_of (affinityMap g4) ''session1'' = None"
proof -
  let ?k = "''session1''"
  define g1 where "g1 = gb\<lparr>affinityMap := [(?k, C)],
      scRefs := AList.update C (ref\<lparr>affinityCnt := 1\<rparr>) (scRefs gb)\<rparr>"
  define g2 where "g2 = g1\<lparr>scRefs := AList.update C (ref\<lparr>affinityCnt := 2\<rparr>) (scRefs g1)\<rparr>"
  define g3 where "g3 = g2\<lparr>scRefs := AList.update C (ref\<lparr>affinityCnt := 1\<rparr>) (scRefs g2)\<rparr>"
  define g4 where "g4 = g3\<lparr>scRefs := AList.update C (ref\<lparr>affinityCnt := 0\<rparr>) (scRefs g3),
      affinityMap := []\<rparr>"
  have b1: "bindSubConn ?k C gb = Inr g1"
    by (simp add: bindSubConn_tracked [OF t] e z g1_def)
  have t1: "map_of (scRefs g1) C = Some (ref\<lparr>affinityCnt := 1\<rparr>)"
    by (simp add: g1_def update_conv')
  have b2: "bindSubConn ?k C g1 = Inr g2"
    by (simp add: bindSubConn_tracked [OF t1] g2_def) (simp add: g1_def)
  have t2: "map_of (scRefs g2) C = Some (ref\<lparr>affinityCnt := 2\<rparr>)"
    by (simp add: g2_def update_conv')
  have m2: "map_of (affinityMap g2) ?k = Some C"
    by (simp add: g2_def g1_def)
  have u3: "unbindSubConn ?k g2 = Inr g3"
    by (simp add: unbindSubConn_tracked [OF m2 t2] g3_def)
  have t3: "map_of (scRefs g3) C = Some (ref\<lparr>affinityCnt := 1\<rparr>)"
    by (simp add: g3_def update_conv')
  have m3: "map_of (affinityMap g3) ?k = Some C"
    by (simp add: g3_def m2)
  have u4: "unbindSubConn ?k g3 = Inr g4"
    by (simp add: unbindSubConn_tracked [OF m3 t3] g4_def) (simp add: g3_def g2_def g1_def)
  have t4: "map_of (scRefs g4) C = Some (ref\<lparr>affinityCnt := 0\<rparr>)"
    by (simp add: g4_def update_conv')
  have m4: "map_of (affinityMap g4) ?k = None"
    by (simp add: g4_def)
  from b1 b2 t2 m2 u3 t3 m3 u4 t4 m4 show ?thesis
    by simp
qed

lemma unbind_general:
  assumes m: "map_of (affinityMap g) boundKey = Some sc" and t: "map_of (scRefs g) sc = Some r"
  shows "\<exists>g'. unbindSubConn boundKey g = Inr g'
      \<and> map_of (scRefs g') sc = Some (r\<lparr>affinityCnt := affinityCnt r - 1\<rparr>)
      \<and> (- (2 ^ 31) < sint (affinityCnt r) \<longrightarrow> sint (affinityCnt r - 1) = sint (affinityCnt r) - 1)
      \<and> (map_of (affinityMap g') boundKey = None) = (sint (affinityCnt r - 1) \<le> 0)
      \<and> (\<forall>k. k \<noteq> boundKey \<longrightarrow> map_of (affinityMap g') k = map_of (affinityMap g) k)
      \<and> (\<forall>sc'. sc' \<noteq> sc \<longrightarrow> map_of (scRefs g') sc' = map_of (scRefs g) sc')
      \<and> scStates g' = scStates g"
  using m sint32_decr [of "affinityCnt r"]
  by (simp add: unbindSubConn_tracked [OF m t] update_conv' delete_conv')


text \<open>
  C4. From an empty affinity table and a ref of \<open>C\<close> with count 0: binding
  \<open>''session1''\<close> to \<open>C\<close> twice gives count 2 with the mapping present; one unbind gives
  count 1 and keeps the mapping; a second unbind removes the mapping. In general, unbind
  of a key bound to a handle with a ref subtracts one from that ref's count and removes
  the mapping exactly when the new count is at most 0, and unbind of an unbound key
  changes nothing.
\<close>

theorem C4_bind_unbind:
  assumes "affinityMap gb = []" and "map_of (scRefs gb) C = Some ref" and "affinityCnt ref = 0"
  shows "(\<exists>g1 g2 g3 g4.
         bindSubConn ''session1'' C gb = Inr g1 \<and> bindSubConn ''session1'' C g1 = Inr g2
       \<and> map_option affinityCnt (map_of (scRefs g2) C) = Some 2
       \<and> map_of (affinityMap g2) ''session1'' = Some C
       \<and> unbindSubConn ''session1'' g2 = Inr g3
       \<and> map_option affinityCnt (map_of (scRefs g3) C) = Some 1
       \<and> map_of (affinityMap g3) ''session1'' = Some C
       \<and> unbindSubConn ''session1'' g3 = Inr g4
       \<and> map_option affinityCnt (map_of (scRefs g4) C) = Some 0
       \<and> map_of (affinityMap g4) ''session1'' = None)
   \<and> (\<forall>g boundKey sc r.
         map_of (affinityMap g) boundKey = Some sc \<and> map_of (scRefs g) sc = Some r \<longrightarrow>
         (\<exists>g'. unbindSubConn boundKey g = Inr g'
            \<and> map_of (scRefs g') sc = Some (r\<lparr>affinityCnt := affinityCnt r - 1\<rparr>)
            \<and> (- (2 ^ 31) < sint (affinityCnt r)
                 \<longrightarrow> sint (affinityCnt r - 1) = sint (affinityCnt r) - 1)
            \<and> (map_of (affinityMap g') boundKey = None) = (sint (affinityCnt r - 1) \<le> 0)
            \<and> (\<forall>k. k \<noteq> boundKey \<longrightarrow> map_of (affinityMap g') k = map_of (affinityMap g) k)
            \<and> (\<forall>sc'. sc' \<noteq> sc \<longrightarrow> map_of (scRefs g') sc' = map_of (scRefs g) sc')
            \<and> scStates g' = scStates g))
   \<and> (\<forall>g boundKey. map_of (affinityMap g) boundKey = None \<longrightarrow> unbindSubConn boundKey g = Inr g)"
proof (intro conjI allI impI)
  show "\<exists>g1 g2 g3 g4.
         bindSubConn ''session1'' C gb = Inr g1 \<and> bindSubConn ''session1'' C g1 = Inr g2
       \<and> map_option affinityCnt (map_of (scRefs g2) C) = Some 2
       \<and> map_of (affinityMap g2) ''session1'' = Some C
       \<and> unbindSubConn ''session1'' g2 = Inr g3
       \<and> map_option affinityCnt (map_of (scRefs g3) C) = Some 1
       \<and> map_of (affinityMap g3) ''session1'' = Some C
       \<and> unbindSubConn ''session1'' g3 = Inr g4
       \<and> map_option affinityCnt (map_of (scRefs g4) C) = Some 0
       \<and> map_of (affinityMap g4) ''session1'' = None"
    by (rule scenario_C [OF assms])
next
  fix g :: gcpBalancer and boundKey sc r
  assume "map_of (affinityMap g) boundKey = Some sc \<and> map_of (scRefs g) sc = Some r"
  then show "\<exists>g'. unbindSubConn boundKey g = Inr g'
            \<and> map_of (scRefs g') sc = Some (r\<lparr>affinityCnt := affinityCnt r - 1\<rparr>)
            \<and> (- (2 ^ 31) < sint (affinityCnt r)
                 \<longrightarrow> sint (affinityCnt r - 1) = sint (affinityCnt r) - 1)
            \<and> (map_of (affinityMap g') boundKey = None) = (sint (affinityCnt r - 1) \<le> 0)
            \<and> (\<forall>k. k \<noteq> boundKey \<longrightarrow> map_of (affinityMap g') k = map_of (affinityMap g) k)
            \<and> (\<forall>sc'. sc' \<noteq> sc \<longrightarrow> map_of (scRefs g') sc' = map_of (scRefs g) sc')
            \<and> scStates g' = scStates g"
    using unbind_general [of g boundKey sc r] by blast
next
  fix g :: gcpBalancer and boundKey
  assume "map_of (affinityMap g) boundKey = None"
  then show "unbindSubConn boundKey g = Inr g"
    by (rule unbindSubConn_unbound)
qed

theorem C4_bind_unbind_witness:
  "affinityMap (newSubConn (Inr 1) Build) = []
   \<and> map_option affinityCnt (map_of (scRefs (newSubConn (Inr 1) Build)) 1) = Some 0
   \<and> (\<exists>g1 g2 g3 g4.
         bindSubConn ''session1'' 1 (newSubConn (Inr 1) Build) = Inr g1
       \<and> bindSubConn ''session1'' 1 g1 = Inr g2
       \<and> map_option affinityCnt (map_of (scRefs g2) 1) = Some 2
       \<and> map_of (affinityMap g2) ''session1'' = Some 1
       \<and> unbindSubConn ''session1'' g2 = Inr g3
       \<and> map_option affinityCnt (map_of (scRefs g3) 1) = Some 1
       \<and> map_of (affinityMap g3) ''session1'' = Some 1
       \<and> unbindSubConn ''session1'' g3 = Inr g4
       \<and> map_option affinityCnt (map_of (scRefs g4) 1) = Some 0
       \<and> map_of (affinityMap g4) ''session1'' = None)"
proof -
  have e: "affinityMap (newSubConn (Inr 1) Build) = []"
    by (simp add: newSubConn_def Build_def Let_def)
  have t: "map_of (scRefs (newSubConn (Inr 1) Build)) 1
      = Some \<lparr>subConn = 1, affinityCnt = 0, streamsCnt = 0\<rparr>"
    by (simp add: newSubConn_def Build_def Let_def)
  have z: "affinityCnt \<lparr>subConn = 1, affinityCnt = 0, streamsCnt = 0\<rparr> = 0"
    by simp
  from C4_bind_unbind [OF e t z] have "\<exists>g1 g2 g3 g4.
         bindSubConn ''session1'' 1 (newSubConn (Inr 1) Build) = Inr g1
       \<and> bindSubConn ''session1'' 1 g1 = Inr g2
       \<and> map_option affinityCnt (map_of (scRefs g2) 1) = Some 2
       \<and> map_of (affinityMap g2) ''session1'' = Some 1
       \<and> unbindSubConn ''session1'' g2 = Inr g3
       \<and> map_option affinityCnt (map_of (scRefs g3) 1) = Some 1
       \<and> map_of (affinityMap g3) ''session1'' = Some 1
       \<and> unbindSubConn ''session1'' g3 = Inr g4
       \<and> map_option affinityCnt (map_of (scRefs g4) 1) = Some 0
       \<and> map_of (affinityMap g4) ''session1'' = None"
    by (rule conjunct1)
  with e t show ?thesis by simp
qed

text \<open>
  C8 fails on the code: unbinding a key whose connection has shut down, and binding a key
  to a handle the balancer does not track, both dereference the nil ref that the lookup
  in \<open>scRefs\<close> returns, and panic.
\<close>

theorem C8_panics:
  "run Build [EvNewSubConn (Inr 1), EvBindSubConn ''k'' 1,
              EvHandleSubConnStateChange 1 Shutdown, EvUnbindSubConn ''k'']
     = Inl NilPointerDereference
   \<and> run Build [EvNewSubConn (Inr 1), EvHandleSubConnStateChange 1 Shutdown,
                EvBindSubConn ''k'' 1]
     = Inl NilPointerDereference
   \<and> bindSubConn ''k'' 7 Build = Inl NilPointerDereference"
  by (simp add: Build_def newSubConn_def bindSubConn_def unbindSubConn_def
      HandleSubConnStateChange_def RecordTransition_unfold evaluate_def newEvaluator_def
      regeneratePicker_def affinityIncr_def Let_def)

subsection \<open>What each operation does to the three maps\<close>

lemma affinityMap_newSubConn: "affinityMap (newSubConn c gb) = affinityMap gb"
  by (simp add: newSubConn_def Let_def split: sum.splits)

lemma newSubConn_maps:
  "(scStates (newSubConn c gb) = scStates gb \<and> scRefs (newSubConn c gb) = scRefs gb)
   \<or> (\<exists>sc. c = Inr sc \<and> Connecting \<notin> snd ` set (scStates gb)
         \<and> scStates (newSubConn c gb) = AList.update sc Idle (scStates gb)
         \<and> scRefs (newSubConn c gb) =
             AList.update sc \<lparr>subConn = sc, affinityCnt = 0, streamsCnt = 0\<rparr> (scRefs gb))"
  by (simp add: newSubConn_def Let_def split: sum.splits)

lemma newSubConn_addrs:
  "scStates (newSubConn c (gb\<lparr>addrs := as\<rparr>)) = scStates (newSubConn c gb)
   \<and> scRefs (newSubConn c (gb\<lparr>addrs := as\<rparr>)) = scRefs (newSubConn c gb)
   \<and> affinityMap (newSubConn c (gb\<lparr>addrs := as\<rparr>)) = affinityMap (newSubConn c gb)"
  by (simp add: newSubConn_def Let_def split: sum.splits)

lemma affinityMap_HandleResolvedAddrs:
  "affinityMap (HandleResolvedAddrs as err c gb) = affinityMap gb"
  by (simp add: HandleResolvedAddrs_def Let_def newSubConn_addrs affinityMap_newSubConn)

lemma HandleResolvedAddrs_maps:
  "(scStates (HandleResolvedAddrs as err c gb) = scStates gb
      \<and> scRefs (HandleResolvedAddrs as err c gb) = scRefs gb)
   \<or> (scStates (HandleResolvedAddrs as err c gb) = scStates (newSubConn c gb)
      \<and> scRefs (HandleResolvedAddrs as err c gb) = scRefs (newSubConn c gb))"
  by (simp add: HandleResolvedAddrs_def Let_def newSubConn_addrs)

lemma regeneratePicker_maps:
  "affinityMap (regeneratePicker gb) = affinityMap gb
   \<and> scStates (regeneratePicker gb) = scStates gb
   \<and> scRefs (regeneratePicker gb) = scRefs gb
   \<and> state (regeneratePicker gb) = state gb
   \<and> csEvltr (regeneratePicker gb) = csEvltr gb"
  by (simp add: regeneratePicker_def Let_def)

lemma HandleSubConnStateChange_unknown:
  "map_of (scStates gb) sc = None \<Longrightarrow> HandleSubConnStateChange sc s gb = gb"
  by (simp add: HandleSubConnStateChange_def)

lemma HandleSubConnStateChange_maps:
  assumes "map_of (scStates gb) sc = Some oldS"
  shows "affinityMap (HandleSubConnStateChange sc s gb) = affinityMap gb
   \<and> scStates (HandleSubConnStateChange sc s gb) =
       (if s = Shutdown then AList.delete sc (AList.update sc s (scStates gb))
        else AList.update sc s (scStates gb))
   \<and> scRefs (HandleSubConnStateChange sc s gb) =
       (if s = Shutdown then AList.delete sc (scRefs gb) else scRefs gb)
   \<and> csEvltr (HandleSubConnStateChange sc s gb) = fst (RecordTransition (csEvltr gb) oldS s)
   \<and> state (HandleSubConnStateChange sc s gb) = snd (RecordTransition (csEvltr gb) oldS s)"
  using assms
  by (cases s)
     (simp_all add: HandleSubConnStateChange_def Let_def regeneratePicker_maps split: prod.splits)

lemma affinityMap_HandleSubConnStateChange:
  "affinityMap (HandleSubConnStateChange sc s gb) = affinityMap gb"
  by (cases "map_of (scStates gb) sc")
     (simp_all add: HandleSubConnStateChange_unknown HandleSubConnStateChange_maps)

lemma onRef_maps:
  "affinityMap (onRef f sc gb) = affinityMap gb \<and> scStates (onRef f sc gb) = scStates gb
   \<and> scRefs (onRef f sc gb) =
       (case map_of (scRefs gb) sc of None \<Rightarrow> scRefs gb
        | Some ref \<Rightarrow> AList.update sc (f ref) (scRefs gb))"
  by (simp add: onRef_def split: option.splits)

subsection \<open>Invariants of runs\<close>

lemma step_cases:
  assumes "step e gb = Inr gb'"
  obtains (resolved) as err c where "e = EvHandleResolvedAddrs as err c"
      "gb' = HandleResolvedAddrs as err c gb"
    | (new) c where "e = EvNewSubConn c" "gb' = newSubConn c gb"
    | (same) "gb' = gb"
    | (bind) bindKey sc ref where "e = EvBindSubConn bindKey sc" "map_of (scRefs gb) sc = Some ref"
        "bindSubConn bindKey sc gb = Inr gb'"
    | (unbind) boundKey sc ref where "e = EvUnbindSubConn boundKey"
        "map_of (affinityMap gb) boundKey = Some sc" "map_of (scRefs gb) sc = Some ref"
        "unbindSubConn boundKey gb = Inr gb'"
    | (change) sc s oldS where "e = EvHandleSubConnStateChange sc s"
        "map_of (scStates gb) sc = Some oldS" "gb' = HandleSubConnStateChange sc s gb"
    | (stream) f sc ref where "e = EvStreamsIncr sc \<and> f = streamsIncr \<or> e = EvStreamsDecr sc \<and> f = streamsDecr"
        "map_of (scRefs gb) sc = Some ref" "gb' = onRef f sc gb"
proof (cases e)
  case (EvHandleResolvedAddrs as err c)
  with assms resolved show ?thesis by simp
next
  case (EvNewSubConn c)
  with assms new show ?thesis by simp
next
  case (EvGetReadySubConnRef k)
  with assms same show ?thesis by simp
next
  case (EvBindSubConn bindKey sc)
  show ?thesis
  proof (cases "map_of (scRefs gb) sc")
    case None
    with assms EvBindSubConn show ?thesis by (simp add: bindSubConn_untracked)
  next
    case (Some ref)
    with assms EvBindSubConn bind show ?thesis by simp
  qed
next
  case (EvUnbindSubConn boundKey)
  show ?thesis
  proof (cases "map_of (affinityMap gb) boundKey")
    case None
    with assms EvUnbindSubConn same show ?thesis by (simp add: unbindSubConn_unbound)
  next
    case (Some sc)
    show ?thesis
    proof (cases "map_of (scRefs gb) sc")
      case None
      with assms EvUnbindSubConn Some show ?thesis by (simp add: unbindSubConn_untracked)
    next
      case (Some ref)
      with assms EvUnbindSubConn \<open>map_of (affinityMap gb) boundKey = Some sc\<close> unbind
      show ?thesis by simp
    qed
  qed
next
  case (EvHandleSubConnStateChange sc s)
  show ?thesis
  proof (cases "map_of (scStates gb) sc")
    case None
    with assms EvHandleSubConnStateChange same show ?thesis
      by (simp add: HandleSubConnStateChange_unknown)
  next
    case (Some oldS)
    with assms EvHandleSubConnStateChange change show ?thesis by simp
  qed
next
  case (EvStreamsIncr sc)
  show ?thesis
  proof (cases "map_of (scRefs gb) sc")
    case None
    with assms EvStreamsIncr same show ?thesis by (simp add: onRef_def)
  next
    case (Some ref)
    with assms EvStreamsIncr stream [of sc streamsIncr ref] show ?thesis by simp
  qed
next
  case (EvStreamsDecr sc)
  show ?thesis
  proof (cases "map_of (scRefs gb) sc")
    case None
    with assms EvStreamsDecr same show ?thesis by (simp add: onRef_def)
  next
    case (Some ref)
    with assms EvStreamsDecr stream [of sc streamsDecr ref] show ?thesis by simp
  qed
next
  case EvClose
  with assms same show ?thesis by (simp add: Close_def)
qed

lemma run_invariant:
  assumes st: "\<And>e gb gb'. P gb \<Longrightarrow> step e gb = Inr gb' \<Longrightarrow> P gb'"
  shows "P gb \<Longrightarrow> run gb es = Inr gb' \<Longrightarrow> P gb'"
proof (induction es arbitrary: gb)
  case Nil
  then show ?case by simp
next
  case (Cons e es)
  from Cons.prems(2) obtain g1 where s: "step e gb = Inr g1" and r: "run g1 es = Inr gb'"
    by (auto split: sum.splits)
  from st [OF Cons.prems(1) s] have "P g1" .
  from Cons.IH [OF this r] show ?case .
qed

lemma sameKeys_newSubConn: "sameKeys gb \<Longrightarrow> sameKeys (newSubConn c gb)"
  using newSubConn_maps [of c gb] by (auto simp add: sameKeys_def update_conv')

lemma sameKeys_step:
  assumes "sameKeys gb" and "step e gb = Inr gb'"
  shows "sameKeys gb'"
  using assms(2)
proof (cases rule: step_cases)
  case (resolved as err c)
  with HandleResolvedAddrs_maps [of as err c gb] sameKeys_newSubConn [OF assms(1), of c] assms(1)
  show ?thesis by (auto simp add: sameKeys_def)
next
  case (new c)
  with sameKeys_newSubConn [OF assms(1)] show ?thesis by simp
next
  case same
  with assms(1) show ?thesis by simp
next
  case (bind bindKey sc ref)
  from bind(3) have "gb' = gb\<lparr>affinityMap := (if map_of (affinityMap gb) bindKey = None
                              then AList.update bindKey sc (affinityMap gb) else affinityMap gb),
             scRefs := AList.update sc (ref\<lparr>affinityCnt := affinityCnt ref + 1\<rparr>) (scRefs gb)\<rparr>"
    by (simp add: bindSubConn_tracked [OF bind(2)])
  with assms(1) bind(2) show ?thesis
    by (auto simp add: sameKeys_def update_conv')
next
  case (unbind boundKey sc ref)
  from unbind(4) have "scRefs gb' = AList.update sc (ref\<lparr>affinityCnt := affinityCnt ref - 1\<rparr>) (scRefs gb)
      \<and> scStates gb' = scStates gb"
    by (auto simp add: unbindSubConn_tracked [OF unbind(2,3)])
  with assms(1) unbind(3) show ?thesis
    by (auto simp add: sameKeys_def update_conv')
next
  case (change sc s oldS)
  from assms(1) have "(map_of (scStates gb) sc = None) = (map_of (scRefs gb) sc = None)"
    unfolding sameKeys_def by (rule spec)
  with change(2) have r: "map_of (scRefs gb) sc \<noteq> None"
    by simp
  from HandleSubConnStateChange_maps [OF change(2), of s] change(3) assms(1) r
  show ?thesis
    by (auto simp add: sameKeys_def update_conv' delete_conv')
next
  case (stream f sc ref)
  with onRef_maps [of f sc gb] assms(1) show ?thesis
    by (auto simp add: sameKeys_def update_conv')
qed

lemma sameKeys_Build: "sameKeys Build"
  by (simp add: sameKeys_def Build_def)

lemma sameKeys_run: "run Build es = Inr gb \<Longrightarrow> sameKeys gb"
  using run_invariant [of sameKeys Build es gb] sameKeys_step sameKeys_Build by blast

lemma bindSubConn_result:
  assumes "map_of (scRefs gb) sc = Some ref" and "bindSubConn bindKey sc gb = Inr gb'"
  shows "gb' = gb\<lparr>affinityMap := (if map_of (affinityMap gb) bindKey = None
                              then AList.update bindKey sc (affinityMap gb) else affinityMap gb),
             scRefs := AList.update sc (ref\<lparr>affinityCnt := affinityCnt ref + 1\<rparr>) (scRefs gb)\<rparr>"
  using assms(2) unfolding bindSubConn_tracked [OF assms(1)] by (simp only: sum.inject)

lemma unbindSubConn_result:
  assumes "map_of (affinityMap gb) boundKey = Some sc" and "map_of (scRefs gb) sc = Some ref"
    and "unbindSubConn boundKey gb = Inr gb'"
  shows "gb' = gb\<lparr>scRefs := AList.update sc (ref\<lparr>affinityCnt := affinityCnt ref - 1\<rparr>) (scRefs gb),
             affinityMap := (if sint (affinityCnt ref - 1) \<le> 0
                             then AList.delete boundKey (affinityMap gb) else affinityMap gb)\<rparr>"
  using assms(3) unfolding unbindSubConn_tracked [OF assms(1,2)] by (simp only: sum.inject)

lemma affinityMap_step:
  assumes "step e gb = Inr gb'" and "map_of (affinityMap gb') k = Some sc"
  shows "map_of (affinityMap gb) k = Some sc \<or> e = EvBindSubConn k sc"
  using assms(1)
proof (cases rule: step_cases)
  case (resolved as err c)
  with assms(2) show ?thesis by (simp add: affinityMap_HandleResolvedAddrs)
next
  case (new c)
  with assms(2) show ?thesis by (simp add: affinityMap_newSubConn)
next
  case same
  with assms(2) show ?thesis by simp
next
  case (bind bindKey sc' ref)
  from bindSubConn_result [OF bind(2,3)]
  have "affinityMap gb' = (if map_of (affinityMap gb) bindKey = None
      then AList.update bindKey sc' (affinityMap gb) else affinityMap gb)"
    by simp
  with assms(2) bind(1) show ?thesis
    by (auto simp add: update_conv' split: if_splits)
next
  case (unbind boundKey sc' ref)
  from unbindSubConn_result [OF unbind(2,3,4)]
  have "affinityMap gb' = (if sint (affinityCnt ref - 1) \<le> 0
      then AList.delete boundKey (affinityMap gb) else affinityMap gb)"
    by simp
  with assms(2) show ?thesis
    by (auto simp add: delete_conv' split: if_splits)
next
  case (change sc' s oldS)
  with assms(2) show ?thesis by (simp add: affinityMap_HandleSubConnStateChange)
next
  case (stream f sc' ref)
  with assms(2) show ?thesis by (simp add: onRef_maps)
qed

lemma boundKeys_mem: "EvBindSubConn k sc \<in> set es \<Longrightarrow> k \<in> boundKeys es"
  by (induction es rule: boundKeys.induct) auto

lemma affinityMap_run:
  "run gb es = Inr gb' \<Longrightarrow> map_of (affinityMap gb') k = Some sc \<Longrightarrow>
     map_of (affinityMap gb) k = Some sc \<or> k \<in> boundKeys es"
proof (induction es arbitrary: gb)
  case Nil
  then show ?case by simp
next
  case (Cons e es)
  from Cons.prems(1) obtain g1 where s: "step e gb = Inr g1" and r: "run g1 es = Inr gb'"
    by (auto split: sum.splits)
  from Cons.IH [OF r Cons.prems(2)]
  have "map_of (affinityMap g1) k = Some sc \<or> k \<in> boundKeys es" .
  then show ?case
  proof
    assume "map_of (affinityMap g1) k = Some sc"
    from affinityMap_step [OF s this] show ?thesis
      by auto
  next
    assume "k \<in> boundKeys es"
    then show ?thesis by (cases e) simp_all
  qed
qed

lemma never_bound_run:
  assumes "run Build es = Inr gb" and "k \<notin> boundKeys es"
  shows "map_of (affinityMap gb) k = None"
proof (cases "map_of (affinityMap gb) k")
  case None
  then show ?thesis .
next
  case (Some sc)
  from affinityMap_run [OF assms(1) Some] assms(2) show ?thesis
    by (simp add: Build_def)
qed

lemma staleBinding_newSubConn:
  assumes "staleBinding k sc gb" and "c \<noteq> Inr sc"
  shows "staleBinding k sc (newSubConn c gb)"
  using newSubConn_maps [of c gb] assms
  by (auto simp add: staleBinding_def affinityMap_newSubConn update_conv')

lemma staleBinding_step:
  assumes st: "staleBinding k sc gb" and fr: "created e \<noteq> Some sc" and "step e gb = Inr gb'"
  shows "staleBinding k sc gb'"
  using assms(3)
proof (cases rule: step_cases)
  case (resolved as err c)
  from resolved(1) fr have "c \<noteq> Inr sc" by auto
  from staleBinding_newSubConn [OF st this] HandleResolvedAddrs_maps [of as err c gb] st resolved(2)
  show ?thesis
    by (auto simp add: staleBinding_def affinityMap_HandleResolvedAddrs affinityMap_newSubConn)
next
  case (new c)
  from new(1) fr have "c \<noteq> Inr sc" by auto
  from staleBinding_newSubConn [OF st this] new(2) show ?thesis by simp
next
  case same
  with st show ?thesis by simp
next
  case (bind bindKey sc' ref)
  from bind(2) st have ne: "sc' \<noteq> sc" by (auto simp add: staleBinding_def)
  from bindSubConn_result [OF bind(2,3)] st ne show ?thesis
    by (auto simp add: staleBinding_def update_conv')
next
  case (unbind boundKey sc' ref)
  from unbind(3) st have ne: "sc' \<noteq> sc" by (auto simp add: staleBinding_def)
  with unbind(2) st have nk: "boundKey \<noteq> k" by (auto simp add: staleBinding_def)
  from unbindSubConn_result [OF unbind(2,3,4)] st ne nk show ?thesis
    by (auto simp add: staleBinding_def update_conv' delete_conv')
next
  case (change sc' s oldS)
  from change(2) st have ne: "sc' \<noteq> sc" by (auto simp add: staleBinding_def)
  from HandleSubConnStateChange_maps [OF change(2), of s] change(3) st ne
  show ?thesis
    by (auto simp add: staleBinding_def update_conv' delete_conv')
next
  case (stream f sc' ref)
  from stream(2) st have ne: "sc' \<noteq> sc" by (auto simp add: staleBinding_def)
  with onRef_maps [of f sc' gb] stream(2,3) st show ?thesis
    by (auto simp add: staleBinding_def update_conv')
qed

lemma staleBinding_run:
  "staleBinding k sc gb \<Longrightarrow> Some sc \<notin> created ` set es \<Longrightarrow> run gb es = Inr gb' \<Longrightarrow>
     staleBinding k sc gb'"
proof (induction es arbitrary: gb)
  case Nil
  then show ?case by simp
next
  case (Cons e es)
  from Cons.prems(3) obtain g1 where s: "step e gb = Inr g1" and r: "run g1 es = Inr gb'"
    by (auto split: sum.splits)
  from Cons.prems(2) have f1: "created e \<noteq> Some sc" and f2: "Some sc \<notin> created ` set es"
    by auto
  from staleBinding_step [OF Cons.prems(1) f1 s] have "staleBinding k sc g1" .
  from Cons.IH [OF this f2 r] show ?case .
qed

lemma staleBinding_Shutdown:
  assumes "map_of (affinityMap gb) k = Some sc" and "map_of (scStates gb) sc = Some oldS"
  shows "staleBinding k sc (HandleSubConnStateChange sc Shutdown gb)"
  using HandleSubConnStateChange_maps [OF assms(2), of Shutdown] assms(1)
  by (simp add: staleBinding_def delete_conv')

lemma getReadySubConnRef_stale:
  "staleBinding k sc gb \<Longrightarrow> getReadySubConnRef k gb = (None, True)"
  by (simp add: staleBinding_def getReadySubConnRef_def stateOf_def)

subsection \<open>Lookups of bound keys\<close>

text \<open>The equations that evaluate a run on concrete events.\<close>

lemmas eval_defs = Build_def newSubConn_def bindSubConn_def unbindSubConn_def
  HandleSubConnStateChange_def HandleResolvedAddrs_def RecordTransition_unfold evaluate_def
  newEvaluator_def regeneratePicker_def affinityIncr_def affinityDecr_def streamsIncr_def
  streamsDecr_def onRef_def Close_def healthCheckEnabled_def updateVal_0 updateVal_1 Let_def
  word_greater_zero_iff

text \<open>
  C9. In every state the balancer reaches from \<open>Build\<close>, \<open>getReadySubConnRef\<close> returns
  (nil, false) for a key that was never bound, and for any key that is not in the
  affinity table; (nil, true) for a key bound to a connection whose current state is not
  \<open>Ready\<close>; and the ref of the bound connection with true for a key bound to a \<open>Ready\<close>
  connection. So a bound key whose connection is not ready is told apart from an unbound
  key by the flag.
\<close>

theorem C9_getReadySubConnRef:
  assumes "run Build es = Inr gb"
  shows "(boundKey \<notin> boundKeys es \<longrightarrow> getReadySubConnRef boundKey gb = (None, False))
   \<and> (map_of (affinityMap gb) boundKey = None \<longrightarrow> getReadySubConnRef boundKey gb = (None, False))
   \<and> (\<forall>sc. map_of (affinityMap gb) boundKey = Some sc \<and> stateOf gb sc \<noteq> Ready
         \<longrightarrow> getReadySubConnRef boundKey gb = (None, True))
   \<and> (\<forall>sc. map_of (affinityMap gb) boundKey = Some sc \<and> stateOf gb sc = Ready
         \<longrightarrow> (\<exists>ref. map_of (scRefs gb) sc = Some ref
               \<and> getReadySubConnRef boundKey gb = (Some ref, True)))"
proof (intro conjI allI impI)
  assume "boundKey \<notin> boundKeys es"
  from never_bound_run [OF assms this] show "getReadySubConnRef boundKey gb = (None, False)"
    by (simp add: getReadySubConnRef_def)
next
  assume "map_of (affinityMap gb) boundKey = None"
  then show "getReadySubConnRef boundKey gb = (None, False)"
    by (simp add: getReadySubConnRef_def)
next
  fix sc
  assume "map_of (affinityMap gb) boundKey = Some sc \<and> stateOf gb sc \<noteq> Ready"
  then show "getReadySubConnRef boundKey gb = (None, True)"
    by (simp add: getReadySubConnRef_def)
next
  fix sc
  assume a: "map_of (affinityMap gb) boundKey = Some sc \<and> stateOf gb sc = Ready"
  then have "map_of (scStates gb) sc \<noteq> None"
    by (auto simp add: stateOf_def split: option.splits)
  moreover from sameKeys_run [OF assms]
  have "(map_of (scStates gb) sc = None) = (map_of (scRefs gb) sc = None)"
    unfolding sameKeys_def by (rule spec)
  ultimately obtain ref where r: "map_of (scRefs gb) sc = Some ref"
    by auto
  with a show "\<exists>ref. map_of (scRefs gb) sc = Some ref
      \<and> getReadySubConnRef boundKey gb = (Some ref, True)"
    by (simp add: getReadySubConnRef_def)
qed

theorem C9_getReadySubConnRef_witness:
  "\<exists>gb ref. run Build [EvNewSubConn (Inr 1), EvBindSubConn ''k'' 1,
                 EvHandleSubConnStateChange 1 Connecting, EvBindSubConn ''c'' 1,
                 EvHandleSubConnStateChange 1 Ready, EvNewSubConn (Inr 2),
                 EvBindSubConn ''i'' 2] = Inr gb
     \<and> getReadySubConnRef ''k'' gb = (Some ref, True)
     \<and> getReadySubConnRef ''i'' gb = (None, True)
     \<and> getReadySubConnRef ''j'' gb = (None, False)"
proof -
  let ?es = "[EvNewSubConn (Inr 1), EvBindSubConn ''k'' 1,
                 EvHandleSubConnStateChange 1 Connecting, EvBindSubConn ''c'' 1,
                 EvHandleSubConnStateChange 1 Ready, EvNewSubConn (Inr 2),
                 EvBindSubConn ''i'' 2]"
  have "\<exists>gb. run Build ?es = Inr gb \<and> map_of (affinityMap gb) ''k'' = Some 1
      \<and> stateOf gb 1 = Ready \<and> map_of (affinityMap gb) ''i'' = Some 2 \<and> stateOf gb 2 \<noteq> Ready"
    by (simp add: eval_defs stateOf_def)
  then obtain gb where r: "run Build ?es = Inr gb" and k: "map_of (affinityMap gb) ''k'' = Some 1"
    and s: "stateOf gb 1 = Ready" and i: "map_of (affinityMap gb) ''i'' = Some 2"
    and t: "stateOf gb 2 \<noteq> Ready"
    by blast
  have j: "''j'' \<notin> boundKeys ?es" by simp
  from C9_getReadySubConnRef [OF r, of "''k''"] k s
  obtain ref where "getReadySubConnRef ''k'' gb = (Some ref, True)" by blast
  moreover from C9_getReadySubConnRef [OF r, of "''i''"] i t
  have "getReadySubConnRef ''i'' gb = (None, True)" by blast
  moreover from C9_getReadySubConnRef [OF r, of "''j''"] j
  have "getReadySubConnRef ''j'' gb = (None, False)" by blast
  ultimately show ?thesis using r by blast
qed

text \<open>
  C10. When a tracked connection that a key is bound to is reported \<open>Shutdown\<close>, it
  leaves the state map and the ref map and the affinity table stays as it is. After any
  further events that do not panic, the host runtime never handing out the same handle
  again, the key is still bound to the handle, the state map reads \<open>Idle\<close> for it, and
  \<open>getReadySubConnRef\<close> returns (nil, true).
\<close>

theorem C10_stale_binding:
  assumes "map_of (affinityMap gb) boundKey = Some sc" and "map_of (scStates gb) sc = Some oldS"
    and "Some sc \<notin> created ` set es"
    and "run (HandleSubConnStateChange sc Shutdown gb) es = Inr gb'"
  shows "map_of (scStates (HandleSubConnStateChange sc Shutdown gb)) sc = None
     \<and> map_of (scRefs (HandleSubConnStateChange sc Shutdown gb)) sc = None
     \<and> affinityMap (HandleSubConnStateChange sc Shutdown gb) = affinityMap gb
     \<and> map_of (affinityMap gb') boundKey = Some sc
     \<and> stateOf gb' sc = Idle
     \<and> getReadySubConnRef boundKey gb' = (None, True)"
proof -
  from staleBinding_Shutdown [OF assms(1,2)]
  have s0: "staleBinding boundKey sc (HandleSubConnStateChange sc Shutdown gb)" .
  from staleBinding_run [OF s0 assms(3,4)] have s1: "staleBinding boundKey sc gb'" .
  from s0 s1 getReadySubConnRef_stale [OF s1] show ?thesis
    by (simp add: staleBinding_def stateOf_def affinityMap_HandleSubConnStateChange)
qed

theorem C10_stale_binding_witness:
  "\<exists>gb'. run (HandleSubConnStateChange 1 Shutdown
             (Build\<lparr>affinityMap := [(''k'', 1)], scStates := [(1, Ready)],
                    scRefs := [(1, \<lparr>subConn = 1, affinityCnt = 1, streamsCnt = 0\<rparr>)]\<rparr>))
           [EvNewSubConn (Inr 2), EvHandleSubConnStateChange 2 Connecting,
            EvHandleSubConnStateChange 2 Ready, EvBindSubConn ''k'' 2,
            EvHandleSubConnStateChange 1 Ready] = Inr gb'
     \<and> getReadySubConnRef ''k'' gb' = (None, True)"
proof -
  let ?gb = "Build\<lparr>affinityMap := [(''k'', 1)], scStates := [(1, Ready)],
                    scRefs := [(1, \<lparr>subConn = 1, affinityCnt = 1, streamsCnt = 0\<rparr>)]\<rparr>"
  let ?es = "[EvNewSubConn (Inr 2), EvHandleSubConnStateChange 2 Connecting,
            EvHandleSubConnStateChange 2 Ready, EvBindSubConn ''k'' 2,
            EvHandleSubConnStateChange 1 Ready]"
  have a: "map_of (affinityMap ?gb) ''k'' = Some 1" by simp
  have b: "map_of (scStates ?gb) 1 = Some Ready" by simp
  have c: "Some 1 \<notin> created ` set ?es" by simp
  have "\<exists>gb'. run (HandleSubConnStateChange 1 Shutdown ?gb) ?es = Inr gb'"
    by (simp add: eval_defs)
  then obtain gb' where r: "run (HandleSubConnStateChange 1 Shutdown ?gb) ?es = Inr gb'" ..
  from C10_stale_binding [OF a b c r] r show ?thesis by blast
qed

subsection \<open>Connections in Connecting state\<close>

lemma snd_set_update: "snd ` set (AList.update k v al) \<subseteq> insert v (snd ` set al)"
  by (induction al) auto

lemma connectingCount_none:
  "Connecting \<notin> snd ` set (scStates gb) \<Longrightarrow> connectingCount gb = 0"
  by (force simp add: connectingCount_def filter_empty_conv)

lemma connectingCount_newSubConn: "connectingCount (newSubConn c gb) = connectingCount gb"
proof -
  from newSubConn_maps [of c gb] show ?thesis
  proof
    assume "scStates (newSubConn c gb) = scStates gb \<and> scRefs (newSubConn c gb) = scRefs gb"
    then show ?thesis by (simp add: connectingCount_def)
  next
    assume "\<exists>sc. c = Inr sc \<and> Connecting \<notin> snd ` set (scStates gb)
         \<and> scStates (newSubConn c gb) = AList.update sc Idle (scStates gb)
         \<and> scRefs (newSubConn c gb) =
             AList.update sc \<lparr>subConn = sc, affinityCnt = 0, streamsCnt = 0\<rparr> (scRefs gb)"
    then obtain sc where n: "Connecting \<notin> snd ` set (scStates gb)"
      and u: "scStates (newSubConn c gb) = AList.update sc Idle (scStates gb)"
      by blast
    from snd_set_update [of sc Idle "scStates gb"] n u
    have "Connecting \<notin> snd ` set (scStates (newSubConn c gb))"
      by auto
    from connectingCount_none [OF this] connectingCount_none [OF n] show ?thesis
      by simp
  qed
qed

lemma connectingCount_HandleResolvedAddrs:
  "connectingCount (HandleResolvedAddrs as err c gb) = connectingCount gb"
  using HandleResolvedAddrs_maps [of as err c gb] connectingCount_newSubConn [of c gb]
  by (auto simp add: connectingCount_def)

text \<open>
  C7, as amended. The guard of \<open>newSubConn\<close> is on creation only: while some tracked
  connection is \<open>Connecting\<close> it creates nothing and leaves the balancer as it is, and a
  connection it creates is registered \<open>Idle\<close>. So neither \<open>newSubConn\<close> nor
  \<open>HandleResolvedAddrs\<close> changes the number of tracked connections that are
  \<open>Connecting\<close>. Nothing bounds that number: it is driven by the state changes the host
  runtime reports.
\<close>

theorem C7_creation_guard:
  "(Connecting \<in> snd ` set (scStates gb) \<longrightarrow> newSubConn c gb = gb)
   \<and> (\<forall>sc. c = Inr sc \<and> Connecting \<notin> snd ` set (scStates gb)
         \<longrightarrow> map_of (scStates (newSubConn c gb)) sc = Some Idle)
   \<and> connectingCount (newSubConn c gb) = connectingCount gb
   \<and> connectingCount (HandleResolvedAddrs as err c gb) = connectingCount gb"
  by (simp add: connectingCount_newSubConn connectingCount_HandleResolvedAddrs)
     (simp add: newSubConn_def Let_def update_conv')

theorem C7_creation_guard_witness:
  "Connecting \<in> snd ` set (scStates (Build\<lparr>scStates := [(1, Connecting)]\<rparr>))
   \<and> newSubConn (Inr 2) (Build\<lparr>scStates := [(1, Connecting)]\<rparr>) = Build\<lparr>scStates := [(1, Connecting)]\<rparr>
   \<and> map_of (scStates (newSubConn (Inr 2) (Build\<lparr>scStates := [(1, Ready)]\<rparr>))) 2 = Some Idle
   \<and> connectingCount (newSubConn (Inr 2) (Build\<lparr>scStates := [(1, Ready)]\<rparr>)) = 0"
  using C7_creation_guard [of "Build\<lparr>scStates := [(1, Connecting)]\<rparr>" "Inr 2"]
    C7_creation_guard [of "Build\<lparr>scStates := [(1, Ready)]\<rparr>" "Inr 2"]
  by (simp add: connectingCount_def)

text \<open>
  C7 as stated fails. A first connection is created and becomes \<open>Ready\<close>; a second one
  is created (no connection is \<open>Connecting\<close> then) and starts connecting; the first one
  fails and reconnects. Two tracked connections are \<open>Connecting\<close> at once.
\<close>

theorem C7_counterexample:
  "map_sum id scStates
     (run Build [EvHandleResolvedAddrs [''a''] None (Inr 1),
                 EvHandleSubConnStateChange 1 Connecting, EvHandleSubConnStateChange 1 Ready,
                 EvNewSubConn (Inr 2), EvHandleSubConnStateChange 2 Connecting,
                 EvHandleSubConnStateChange 1 TransientFailure,
                 EvHandleSubConnStateChange 1 Connecting])
     = Inr [(1, Connecting), (2, Connecting)]
   \<and> map_sum id connectingCount
     (run Build [EvHandleResolvedAddrs [''a''] None (Inr 1),
                 EvHandleSubConnStateChange 1 Connecting, EvHandleSubConnStateChange 1 Ready,
                 EvNewSubConn (Inr 2), EvHandleSubConnStateChange 2 Connecting,
                 EvHandleSubConnStateChange 1 TransientFailure,
                 EvHandleSubConnStateChange 1 Connecting])
     = Inr 2"
  by (simp add: eval_defs connectingCount_def)

subsection \<open>Reference counts in disciplined runs\<close>

lemma oneKeyPerHandleD:
  assumes "oneKeyPerHandle gb" and "map_of (affinityMap gb) k = Some sc"
    and "map_of (affinityMap gb) k' = Some sc"
  shows "k = k'"
proof -
  from assms(1) have i: "inj_on snd (set (affinityMap gb))"
    by (simp add: oneKeyPerHandle_def distinct_map)
  from assms(2) have a: "(k, sc) \<in> set (affinityMap gb)" by (rule map_of_SomeD)
  from assms(3) have b: "(k', sc) \<in> set (affinityMap gb)" by (rule map_of_SomeD)
  have "snd (k, sc) = snd (k', sc)" by simp
  from inj_onD [OF i this a b] show ?thesis by simp
qed

lemma freshHandleD:
  assumes "freshHandle sc gb"
  shows "map_of (affinityMap gb) k \<noteq> Some sc"
proof
  assume "map_of (affinityMap gb) k = Some sc"
  then have "(k, sc) \<in> set (affinityMap gb)" by (rule map_of_SomeD)
  then have "sc \<in> snd ` set (affinityMap gb)" by force
  with assms show False by (simp add: freshHandle_def)
qed

lemma affinityInvD1:
  "affinityInv n gb \<Longrightarrow> map_of (affinityMap gb) k = Some sc \<Longrightarrow> map_of (scRefs gb) sc = Some ref
     \<Longrightarrow> 0 < sint (affinityCnt ref)"
  unfolding affinityInv_def by blast

lemma affinityInvD2:
  "affinityInv n gb \<Longrightarrow> map_of (scRefs gb) sc = Some ref
     \<Longrightarrow> 0 \<le> sint (affinityCnt ref) \<and> sint (affinityCnt ref) \<le> n"
  unfolding affinityInv_def by blast

lemma affinityInvI:
  assumes "\<And>k sc ref. map_of (affinityMap gb) k = Some sc \<Longrightarrow> map_of (scRefs gb) sc = Some ref
      \<Longrightarrow> 0 < sint (affinityCnt ref)"
    and "\<And>sc ref. map_of (scRefs gb) sc = Some ref
      \<Longrightarrow> 0 \<le> sint (affinityCnt ref) \<and> sint (affinityCnt ref) \<le> n"
  shows "affinityInv n gb"
  unfolding affinityInv_def using assms by blast

lemma affinityInv_mono: "affinityInv n gb \<Longrightarrow> n \<le> m \<Longrightarrow> affinityInv m gb"
  unfolding affinityInv_def by fastforce

lemma affinityInv_maps:
  "affinityInv n gb \<Longrightarrow> affinityMap gb' = affinityMap gb \<Longrightarrow> scRefs gb' = scRefs gb
     \<Longrightarrow> affinityInv n gb'"
  unfolding affinityInv_def by simp

lemma affinityInv_newSubConn:
  assumes inv: "affinityInv n gb" and n: "0 \<le> n" and fr: "\<And>sc. c = Inr sc \<Longrightarrow> freshHandle sc gb"
  shows "affinityInv n (newSubConn c gb)"
proof -
  from newSubConn_maps [of c gb] show ?thesis
  proof
    assume "scStates (newSubConn c gb) = scStates gb \<and> scRefs (newSubConn c gb) = scRefs gb"
    with inv show ?thesis
      by (simp add: affinityInv_maps affinityMap_newSubConn)
  next
    assume "\<exists>sc. c = Inr sc \<and> Connecting \<notin> snd ` set (scStates gb)
         \<and> scStates (newSubConn c gb) = AList.update sc Idle (scStates gb)
         \<and> scRefs (newSubConn c gb) =
             AList.update sc \<lparr>subConn = sc, affinityCnt = 0, streamsCnt = 0\<rparr> (scRefs gb)"
    then obtain sc where c: "c = Inr sc"
      and r: "scRefs (newSubConn c gb) =
             AList.update sc \<lparr>subConn = sc, affinityCnt = 0, streamsCnt = 0\<rparr> (scRefs gb)"
      by blast
    from fr [OF c] have f: "freshHandle sc gb" .
    show ?thesis
    proof (rule affinityInvI)
      fix k sc' ref
      assume m: "map_of (affinityMap (newSubConn c gb)) k = Some sc'"
        and t: "map_of (scRefs (newSubConn c gb)) sc' = Some ref"
      from m have m': "map_of (affinityMap gb) k = Some sc'"
        by (simp add: affinityMap_newSubConn)
      with freshHandleD [OF f, of k] have "sc' \<noteq> sc" by auto
      with t r have "map_of (scRefs gb) sc' = Some ref"
        by (simp add: update_conv')
      from affinityInvD1 [OF inv m' this] show "0 < sint (affinityCnt ref)" .
    next
      fix sc' ref
      assume t: "map_of (scRefs (newSubConn c gb)) sc' = Some ref"
      show "0 \<le> sint (affinityCnt ref) \<and> sint (affinityCnt ref) \<le> n"
      proof (cases "sc' = sc")
        case True
        with t r have "ref = \<lparr>subConn = sc, affinityCnt = 0, streamsCnt = 0\<rparr>"
          by (simp add: update_conv')
        with n show ?thesis by simp
      next
        case False
        with t r have "map_of (scRefs gb) sc' = Some ref"
          by (simp add: update_conv')
        from affinityInvD2 [OF inv this] show ?thesis .
      qed
    qed
  qed
qed

lemma affinityInv_bind:
  assumes inv: "affinityInv n gb" and n: "n < 2 ^ 31 - 1"
    and t: "map_of (scRefs gb) sc = Some ref" and b: "bindSubConn bindKey sc gb = Inr gb'"
  shows "affinityInv (n + 1) gb'"
proof -
  note g = bindSubConn_result [OF t b]
  from affinityInvD2 [OF inv t] have old: "0 \<le> sint (affinityCnt ref)" "sint (affinityCnt ref) \<le> n"
    by simp_all
  from old(2) n have "sint (affinityCnt ref) < 2 ^ 31 - 1" by simp
  from sint32_incr [OF this] have inc: "sint (affinityCnt ref + 1) = sint (affinityCnt ref) + 1" .
  from g have r: "map_of (scRefs gb') = (map_of (scRefs gb))(sc \<mapsto> ref\<lparr>affinityCnt := affinityCnt ref + 1\<rparr>)"
    by (simp add: update_conv')
  show ?thesis
  proof (rule affinityInvI)
    fix k sc' ref'
    assume m: "map_of (affinityMap gb') k = Some sc'" and t': "map_of (scRefs gb') sc' = Some ref'"
    show "0 < sint (affinityCnt ref')"
    proof (cases "sc' = sc")
      case True
      with t' r have "ref' = ref\<lparr>affinityCnt := affinityCnt ref + 1\<rparr>" by simp
      with inc old(1) show ?thesis by simp
    next
      case False
      with t' r have t0: "map_of (scRefs gb) sc' = Some ref'" by simp
      from g m False have "map_of (affinityMap gb) k = Some sc'"
        by (auto simp add: update_conv' split: if_splits)
      from affinityInvD1 [OF inv this t0] show ?thesis .
    qed
  next
    fix sc' ref'
    assume t': "map_of (scRefs gb') sc' = Some ref'"
    show "0 \<le> sint (affinityCnt ref') \<and> sint (affinityCnt ref') \<le> n + 1"
    proof (cases "sc' = sc")
      case True
      with t' r have "ref' = ref\<lparr>affinityCnt := affinityCnt ref + 1\<rparr>" by simp
      with inc old show ?thesis by simp
    next
      case False
      with t' r have "map_of (scRefs gb) sc' = Some ref'" by simp
      from affinityInvD2 [OF inv this] show ?thesis by simp
    qed
  qed
qed

lemma affinityInv_unbind:
  assumes inv: "affinityInv n gb" and one: "oneKeyPerHandle gb"
    and m: "map_of (affinityMap gb) boundKey = Some sc"
    and t: "map_of (scRefs gb) sc = Some ref" and u: "unbindSubConn boundKey gb = Inr gb'"
  shows "affinityInv n gb'"
proof -
  note g = unbindSubConn_result [OF m t u]
  from affinityInvD2 [OF inv t] have old: "0 \<le> sint (affinityCnt ref)" "sint (affinityCnt ref) \<le> n"
    by simp_all
  from affinityInvD1 [OF inv m t] have pos: "0 < sint (affinityCnt ref)" .
  then have "- (2 ^ 31) < sint (affinityCnt ref)" by simp
  from sint32_decr [OF this] have dec: "sint (affinityCnt ref - 1) = sint (affinityCnt ref) - 1"
    by simp
  from g have r: "map_of (scRefs gb') = (map_of (scRefs gb))(sc \<mapsto> ref\<lparr>affinityCnt := affinityCnt ref - 1\<rparr>)"
    by (simp add: update_conv')
  show ?thesis
  proof (rule affinityInvI)
    fix k sc' ref'
    assume m': "map_of (affinityMap gb') k = Some sc'" and t': "map_of (scRefs gb') sc' = Some ref'"
    from g m' have m0: "map_of (affinityMap gb) k = Some sc'"
      by (auto simp add: delete_conv' split: if_splits)
    show "0 < sint (affinityCnt ref')"
    proof (cases "sc' = sc")
      case True
      with t' r have e: "ref' = ref\<lparr>affinityCnt := affinityCnt ref - 1\<rparr>" by simp
      from oneKeyPerHandleD [OF one m0 [unfolded True] m] have "k = boundKey" .
      with g m' have "\<not> sint (affinityCnt ref - 1) \<le> 0"
        by (auto simp add: delete_conv' split: if_splits)
      with e show ?thesis by simp
    next
      case False
      with t' r have "map_of (scRefs gb) sc' = Some ref'" by simp
      from affinityInvD1 [OF inv m0 this] show ?thesis .
    qed
  next
    fix sc' ref'
    assume t': "map_of (scRefs gb') sc' = Some ref'"
    show "0 \<le> sint (affinityCnt ref') \<and> sint (affinityCnt ref') \<le> n"
    proof (cases "sc' = sc")
      case True
      with t' r have "ref' = ref\<lparr>affinityCnt := affinityCnt ref - 1\<rparr>" by simp
      with dec old pos show ?thesis by simp
    next
      case False
      with t' r have "map_of (scRefs gb) sc' = Some ref'" by simp
      from affinityInvD2 [OF inv this] show ?thesis .
    qed
  qed
qed

lemma affinityInv_change:
  assumes inv: "affinityInv n gb" and k: "map_of (scStates gb) sc = Some oldS"
  shows "affinityInv n (HandleSubConnStateChange sc s gb)"
proof (rule affinityInvI)
  note h = HandleSubConnStateChange_maps [OF k, of s]
  fix key sc' ref
  assume m: "map_of (affinityMap (HandleSubConnStateChange sc s gb)) key = Some sc'"
    and t: "map_of (scRefs (HandleSubConnStateChange sc s gb)) sc' = Some ref"
  from m h have m0: "map_of (affinityMap gb) key = Some sc'" by simp
  from t h have "map_of (scRefs gb) sc' = Some ref"
    by (auto simp add: delete_conv' split: if_splits)
  from affinityInvD1 [OF inv m0 this] show "0 < sint (affinityCnt ref)" .
next
  note h = HandleSubConnStateChange_maps [OF k, of s]
  fix sc' ref
  assume t: "map_of (scRefs (HandleSubConnStateChange sc s gb)) sc' = Some ref"
  from t h have "map_of (scRefs gb) sc' = Some ref"
    by (auto simp add: delete_conv' split: if_splits)
  from affinityInvD2 [OF inv this]
  show "0 \<le> sint (affinityCnt ref) \<and> sint (affinityCnt ref) \<le> n" .
qed

lemma affinityInv_stream:
  assumes inv: "affinityInv n gb" and t: "map_of (scRefs gb) sc = Some ref"
    and f: "f = streamsIncr \<or> f = streamsDecr"
  shows "affinityInv n (onRef f sc gb)"
proof -
  from f have fr: "affinityCnt (f ref) = affinityCnt ref"
    by (auto simp add: streamsIncr_def streamsDecr_def)
  from onRef_maps [of f sc gb] t
  have a: "affinityMap (onRef f sc gb) = affinityMap gb"
    and r: "map_of (scRefs (onRef f sc gb)) = (map_of (scRefs gb))(sc \<mapsto> f ref)"
    by (simp_all add: update_conv')
  show ?thesis
  proof (rule affinityInvI)
    fix k sc' ref'
    assume m: "map_of (affinityMap (onRef f sc gb)) k = Some sc'"
      and t': "map_of (scRefs (onRef f sc gb)) sc' = Some ref'"
    from m a have m0: "map_of (affinityMap gb) k = Some sc'" by simp
    show "0 < sint (affinityCnt ref')"
    proof (cases "sc' = sc")
      case True
      with t' r have "ref' = f ref" by simp
      with fr affinityInvD1 [OF inv m0 [unfolded True] t] show ?thesis by simp
    next
      case False
      with t' r have "map_of (scRefs gb) sc' = Some ref'" by simp
      from affinityInvD1 [OF inv m0 this] show ?thesis .
    qed
  next
    fix sc' ref'
    assume t': "map_of (scRefs (onRef f sc gb)) sc' = Some ref'"
    show "0 \<le> sint (affinityCnt ref') \<and> sint (affinityCnt ref') \<le> n"
    proof (cases "sc' = sc")
      case True
      with t' r have "ref' = f ref" by simp
      with fr affinityInvD2 [OF inv t] show ?thesis by simp
    next
      case False
      with t' r have "map_of (scRefs gb) sc' = Some ref'" by simp
      from affinityInvD2 [OF inv this] show ?thesis .
    qed
  qed
qed

lemma affinityInv_step:
  assumes inv: "affinityInv n gb" and n: "0 \<le> n" "n < 2 ^ 31 - 1"
    and one: "oneKeyPerHandle gb" and al: "freshCreated e gb" and st: "step e gb = Inr gb'"
  shows "affinityInv (n + 1) gb'"
  using st
proof (cases rule: step_cases)
  case (resolved as err c)
  from resolved(1) al have fr: "\<And>sc. c = Inr sc \<Longrightarrow> freshHandle sc gb"
    by (simp add: freshCreated_def)
  from affinityInv_newSubConn [OF inv n(1) fr] have "affinityInv n (newSubConn c gb)" by simp
  with HandleResolvedAddrs_maps [of as err c gb] inv resolved(2)
  have "affinityInv n gb'"
    by (auto simp add: affinityInv_def affinityMap_HandleResolvedAddrs affinityMap_newSubConn)
  then show ?thesis by (rule affinityInv_mono) simp
next
  case (new c)
  from new(1) al have fr: "\<And>sc. c = Inr sc \<Longrightarrow> freshHandle sc gb"
    by (simp add: freshCreated_def)
  from affinityInv_newSubConn [OF inv n(1) fr] new(2) have "affinityInv n gb'" by simp
  then show ?thesis by (rule affinityInv_mono) simp
next
  case same
  with inv have "affinityInv n gb'" by simp
  then show ?thesis by (rule affinityInv_mono) simp
next
  case (bind bindKey sc ref)
  from affinityInv_bind [OF inv n(2) bind(2,3)] show ?thesis .
next
  case (unbind boundKey sc ref)
  from affinityInv_unbind [OF inv one unbind(2,3,4)] have "affinityInv n gb'" .
  then show ?thesis by (rule affinityInv_mono) simp
next
  case (change sc s oldS)
  from affinityInv_change [OF inv change(2), of s] change(3) have "affinityInv n gb'" by simp
  then show ?thesis by (rule affinityInv_mono) simp
next
  case (stream f sc ref)
  from stream(1) have "f = streamsIncr \<or> f = streamsDecr" by auto
  from affinityInv_stream [OF inv stream(2) this] stream(3) have "affinityInv n gb'" by simp
  then show ?thesis by (rule affinityInv_mono) simp
qed

lemma affinityInv_run:
  "affinityInv n gb \<Longrightarrow> 0 \<le> n \<Longrightarrow> n + int (length es) < 2 ^ 31 \<Longrightarrow> disciplined gb es
     \<Longrightarrow> run gb es = Inr gb' \<Longrightarrow> affinityInv (n + int (length es)) gb'"
proof (induction es arbitrary: n gb)
  case Nil
  then show ?case by simp
next
  case (Cons e es)
  from Cons.prems(5) obtain g1 where s: "step e gb = Inr g1" and r: "run g1 es = Inr gb'"
    by (auto split: sum.splits)
  from Cons.prems(4) s have one: "oneKeyPerHandle gb" and al: "freshCreated e gb"
    and d: "disciplined g1 es"
    by simp_all
  from Cons.prems(3) have b: "n < 2 ^ 31 - 1" and b': "(n + 1) + int (length es) < 2 ^ 31"
    by simp_all
  from affinityInv_step [OF Cons.prems(1,2) b one al s] have i: "affinityInv (n + 1) g1" .
  from Cons.prems(2) have "0 \<le> n + 1" by simp
  from Cons.IH [OF i this b' d r] have "affinityInv (n + 1 + int (length es)) gb'" .
  moreover have "n + 1 + int (length es) = n + int (length (e # es))" by simp
  ultimately show ?case by (simp only:)
qed

lemma affinityInv_Build: "affinityInv 0 Build"
  by (simp add: affinityInv_def Build_def)

lemma streamsInvD:
  "streamsInv n gb \<Longrightarrow> map_of (scRefs gb) sc = Some ref
     \<Longrightarrow> 0 \<le> sint (streamsCnt ref) \<and> sint (streamsCnt ref) \<le> n"
  unfolding streamsInv_def by blast

lemma streamsInv_update:
  assumes inv: "streamsInv n gb"
    and r: "map_of (scRefs gb') = (map_of (scRefs gb))(sc \<mapsto> ref)"
    and b: "0 \<le> sint (streamsCnt ref)" "sint (streamsCnt ref) \<le> m" and nm: "n \<le> m"
  shows "streamsInv m gb'"
  unfolding streamsInv_def
proof (intro allI impI)
  fix sc' ref'
  assume t: "map_of (scRefs gb') sc' = Some ref'"
  show "0 \<le> sint (streamsCnt ref') \<and> sint (streamsCnt ref') \<le> m"
  proof (cases "sc' = sc")
    case True
    with t r have "ref' = ref" by simp
    with b show ?thesis by simp
  next
    case False
    with t r have "map_of (scRefs gb) sc' = Some ref'" by simp
    from streamsInvD [OF inv this] nm show ?thesis by simp
  qed
qed

lemma streamsInv_subset:
  assumes inv: "streamsInv n gb"
    and r: "\<And>sc ref. map_of (scRefs gb') sc = Some ref \<Longrightarrow> map_of (scRefs gb) sc = Some ref"
    and nm: "n \<le> m"
  shows "streamsInv m gb'"
  unfolding streamsInv_def
proof (intro allI impI)
  fix sc' ref'
  assume "map_of (scRefs gb') sc' = Some ref'"
  from streamsInvD [OF inv r [OF this]] nm
  show "0 \<le> sint (streamsCnt ref') \<and> sint (streamsCnt ref') \<le> m" by simp
qed

lemma streamsInv_newSubConn:
  assumes inv: "streamsInv n gb" and n: "0 \<le> n"
  shows "streamsInv n (newSubConn c gb)"
proof -
  from newSubConn_maps [of c gb] show ?thesis
  proof
    assume "scStates (newSubConn c gb) = scStates gb \<and> scRefs (newSubConn c gb) = scRefs gb"
    then have "\<And>sc ref. map_of (scRefs (newSubConn c gb)) sc = Some ref
        \<Longrightarrow> map_of (scRefs gb) sc = Some ref"
      by simp
    from streamsInv_subset [OF inv this] show ?thesis by simp
  next
    assume "\<exists>sc. c = Inr sc \<and> Connecting \<notin> snd ` set (scStates gb)
         \<and> scStates (newSubConn c gb) = AList.update sc Idle (scStates gb)
         \<and> scRefs (newSubConn c gb) =
             AList.update sc \<lparr>subConn = sc, affinityCnt = 0, streamsCnt = 0\<rparr> (scRefs gb)"
    then obtain sc where "scRefs (newSubConn c gb) =
             AList.update sc \<lparr>subConn = sc, affinityCnt = 0, streamsCnt = 0\<rparr> (scRefs gb)"
      by blast
    then have "map_of (scRefs (newSubConn c gb)) =
        (map_of (scRefs gb))(sc \<mapsto> \<lparr>subConn = sc, affinityCnt = 0, streamsCnt = 0\<rparr>)"
      by (simp add: update_conv')
    from streamsInv_update [OF inv this, of n] n show ?thesis by simp
  qed
qed

lemma streamsInv_step:
  assumes inv: "streamsInv n gb" and n: "0 \<le> n" "n < 2 ^ 31 - 1"
    and al: "closesOpen e gb" and st: "step e gb = Inr gb'"
  shows "streamsInv (n + 1) gb'"
  using st
proof (cases rule: step_cases)
  case (resolved as err c)
  from HandleResolvedAddrs_maps [of as err c gb] resolved(2)
  have "scRefs gb' = scRefs gb \<or> scRefs gb' = scRefs (newSubConn c gb)" by auto
  then show ?thesis
  proof
    assume "scRefs gb' = scRefs gb"
    then have "\<And>sc ref. map_of (scRefs gb') sc = Some ref \<Longrightarrow> map_of (scRefs gb) sc = Some ref"
      by simp
    from streamsInv_subset [OF inv this] show ?thesis by simp
  next
    assume "scRefs gb' = scRefs (newSubConn c gb)"
    then have "\<And>sc ref. map_of (scRefs gb') sc = Some ref
        \<Longrightarrow> map_of (scRefs (newSubConn c gb)) sc = Some ref"
      by simp
    from streamsInv_subset [OF streamsInv_newSubConn [OF inv n(1)] this] show ?thesis by simp
  qed
next
  case (new c)
  with streamsInv_newSubConn [OF inv n(1), of c] have "streamsInv n gb'" by simp
  then show ?thesis unfolding streamsInv_def by fastforce
next
  case same
  with inv show ?thesis unfolding streamsInv_def by fastforce
next
  case (bind bindKey sc ref)
  from bindSubConn_result [OF bind(2,3)]
  have "map_of (scRefs gb') = (map_of (scRefs gb))(sc \<mapsto> ref\<lparr>affinityCnt := affinityCnt ref + 1\<rparr>)"
    by (simp add: update_conv')
  from streamsInv_update [OF inv this, of "n + 1"] streamsInvD [OF inv bind(2)]
  show ?thesis by simp
next
  case (unbind boundKey sc ref)
  from unbindSubConn_result [OF unbind(2,3,4)]
  have "map_of (scRefs gb') = (map_of (scRefs gb))(sc \<mapsto> ref\<lparr>affinityCnt := affinityCnt ref - 1\<rparr>)"
    by (simp add: update_conv')
  from streamsInv_update [OF inv this, of "n + 1"] streamsInvD [OF inv unbind(3)]
  show ?thesis by simp
next
  case (change sc s oldS)
  from HandleSubConnStateChange_maps [OF change(2), of s] change(3)
  have "\<And>sc ref. map_of (scRefs gb') sc = Some ref \<Longrightarrow> map_of (scRefs gb) sc = Some ref"
    by (auto simp add: delete_conv' split: if_splits)
  from streamsInv_subset [OF inv this] show ?thesis by simp
next
  case (stream f sc ref)
  from streamsInvD [OF inv stream(2)]
  have old: "0 \<le> sint (streamsCnt ref)" "sint (streamsCnt ref) \<le> n" by simp_all
  from old(2) n have "sint (streamsCnt ref) < 2 ^ 31 - 1" by simp
  from sint32_incr [OF this] have inc: "sint (streamsCnt ref + 1) = sint (streamsCnt ref) + 1" .
  from old(1) have "- (2 ^ 31) < sint (streamsCnt ref)" by simp
  from sint32_decr [OF this] have dec: "sint (streamsCnt ref + (- 1)) = sint (streamsCnt ref) - 1" .
  from stream(1,2) al have "f = streamsIncr \<or> f = streamsDecr \<and> 0 < sint (streamsCnt ref)"
    by auto
  with inc dec old have fr: "0 \<le> sint (streamsCnt (f ref)) \<and> sint (streamsCnt (f ref)) \<le> n + 1"
    by (auto simp add: streamsIncr_def streamsDecr_def)
  from onRef_maps [of f sc gb] stream(2,3)
  have "map_of (scRefs gb') = (map_of (scRefs gb))(sc \<mapsto> f ref)"
    by (simp add: update_conv')
  from streamsInv_update [OF inv this, of "n + 1"] fr show ?thesis by simp
qed

lemma streamsInv_run:
  "streamsInv n gb \<Longrightarrow> 0 \<le> n \<Longrightarrow> n + int (length es) < 2 ^ 31 \<Longrightarrow> streamsPaired gb es
     \<Longrightarrow> run gb es = Inr gb' \<Longrightarrow> streamsInv (n + int (length es)) gb'"
proof (induction es arbitrary: n gb)
  case Nil
  then show ?case by simp
next
  case (Cons e es)
  from Cons.prems(5) obtain g1 where s: "step e gb = Inr g1" and r: "run g1 es = Inr gb'"
    by (auto split: sum.splits)
  from Cons.prems(4) s have al: "closesOpen e gb" and d: "streamsPaired g1 es"
    by simp_all
  from Cons.prems(3) have b: "n < 2 ^ 31 - 1" and b': "(n + 1) + int (length es) < 2 ^ 31"
    by simp_all
  from streamsInv_step [OF Cons.prems(1,2) b al s] have i: "streamsInv (n + 1) g1" .
  from Cons.prems(2) have "0 \<le> n + 1" by simp
  from Cons.IH [OF i this b' d r] have "streamsInv (n + 1 + int (length es)) gb'" .
  moreover have "n + 1 + int (length es) = n + int (length (e # es))" by simp
  ultimately show ?case by (simp only:)
qed

lemma streamsInv_Build: "streamsInv 0 Build"
  by (simp add: streamsInv_def Build_def)

text \<open>Prefixes of runs.\<close>

lemma run_take: "run gb es = Inr gb' \<Longrightarrow> \<exists>g. run gb (take i es) = Inr g"
proof (induction es arbitrary: gb i)
  case Nil
  then show ?case by simp
next
  case (Cons e es)
  from Cons.prems obtain g1 where s: "step e gb = Inr g1" and r: "run g1 es = Inr gb'"
    by (auto split: sum.splits)
  show ?case
  proof (cases i)
    case 0
    then show ?thesis by simp
  next
    case (Suc j)
    from Cons.IH [OF r, of j] s Suc show ?thesis by simp
  qed
qed

lemma disciplined_take: "disciplined gb es \<Longrightarrow> disciplined gb (take i es)"
proof (induction es arbitrary: gb i)
  case Nil
  then show ?case by simp
next
  case (Cons e es)
  show ?case
  proof (cases i)
    case 0
    then show ?thesis by simp
  next
    case (Suc j)
    show ?thesis
    proof (cases "step e gb")
      case (Inl p)
      with Cons.prems Suc show ?thesis by simp
    next
      case (Inr g1)
      with Cons.prems have "disciplined g1 es" by simp
      from Cons.IH [OF this, of j] Cons.prems Inr Suc show ?thesis by simp
    qed
  qed
qed

lemma streamsPaired_take: "streamsPaired gb es \<Longrightarrow> streamsPaired gb (take i es)"
proof (induction es arbitrary: gb i)
  case Nil
  then show ?case by simp
next
  case (Cons e es)
  show ?case
  proof (cases i)
    case 0
    then show ?thesis by simp
  next
    case (Suc j)
    show ?thesis
    proof (cases "step e gb")
      case (Inl p)
      with Cons.prems Suc show ?thesis by simp
    next
      case (Inr g1)
      with Cons.prems have "streamsPaired g1 es" by simp
      from Cons.IH [OF this, of j] Cons.prems Inr Suc show ?thesis by simp
    qed
  qed
qed

text \<open>
  C5, as amended. Take a run from \<open>Build\<close> of fewer than \<open>2 ^ 31\<close> events that does not
  panic, in which before every event no two keys are bound to the same handle, every
  handle the host runtime hands out is new, and a stream is closed only on a ref that has
  one open. Then at every point of the run the affinity count and the stream count of
  every ref are not negative.
\<close>

theorem C5_counts_nonnegative:
  assumes "run Build es = Inr gb" and "disciplined Build es" and "streamsPaired Build es"
    and "length es < 2 ^ 31"
  shows "\<forall>i. \<exists>g. run Build (take i es) = Inr g
           \<and> (\<forall>sc ref. map_of (scRefs g) sc = Some ref
                 \<longrightarrow> 0 \<le> sint (affinityCnt ref) \<and> 0 \<le> sint (streamsCnt ref))"
proof
  fix i
  from run_take [OF assms(1), of i] obtain g where r: "run Build (take i es) = Inr g" ..
  from assms(4) have b: "0 + int (length (take i es)) < 2 ^ 31" by simp
  from affinityInv_run [OF affinityInv_Build _ b disciplined_take [OF assms(2)] r]
  have a: "affinityInv (0 + int (length (take i es))) g" by simp
  from streamsInv_run [OF streamsInv_Build _ b streamsPaired_take [OF assms(3)] r]
  have s: "streamsInv (0 + int (length (take i es))) g" by simp
  have "\<forall>sc ref. map_of (scRefs g) sc = Some ref
           \<longrightarrow> 0 \<le> sint (affinityCnt ref) \<and> 0 \<le> sint (streamsCnt ref)"
  proof (intro allI impI)
    fix sc ref
    assume t: "map_of (scRefs g) sc = Some ref"
    from affinityInvD2 [OF a t] streamsInvD [OF s t]
    show "0 \<le> sint (affinityCnt ref) \<and> 0 \<le> sint (streamsCnt ref)" by simp
  qed
  with r show "\<exists>g. run Build (take i es) = Inr g
           \<and> (\<forall>sc ref. map_of (scRefs g) sc = Some ref
                 \<longrightarrow> 0 \<le> sint (affinityCnt ref) \<and> 0 \<le> sint (streamsCnt ref))"
    by blast
qed

text \<open>
  C6, as amended. Take a run from \<open>Build\<close> of fewer than \<open>2 ^ 31\<close> events that does not
  panic, in which before every event no two keys are bound to the same handle and every
  handle the host runtime hands out is new. Then in the state it reaches, every key in
  the affinity table whose connection is still tracked finds a strictly positive
  affinity count there, and unbinding the key keeps it in the table exactly when the
  count stays positive.
\<close>

theorem C6_bound_key_positive:
  assumes "run Build es = Inr gb" and "disciplined Build es" and "length es < 2 ^ 31"
  shows "\<forall>k sc ref. map_of (affinityMap gb) k = Some sc \<and> map_of (scRefs gb) sc = Some ref
           \<longrightarrow> 0 < sint (affinityCnt ref)
               \<and> (\<exists>g'. unbindSubConn k gb = Inr g'
                     \<and> (map_of (affinityMap g') k = Some sc) = (0 < sint (affinityCnt ref) - 1)
                     \<and> (map_of (affinityMap g') k = None) = (sint (affinityCnt ref) - 1 \<le> 0))"
proof (intro allI impI)
  fix k sc ref
  assume h: "map_of (affinityMap gb) k = Some sc \<and> map_of (scRefs gb) sc = Some ref"
  then have m: "map_of (affinityMap gb) k = Some sc" and t: "map_of (scRefs gb) sc = Some ref"
    by simp_all
  from assms(3) have b: "0 + int (length es) < 2 ^ 31" by simp
  from affinityInv_run [OF affinityInv_Build _ b assms(2,1)]
  have a: "affinityInv (0 + int (length es)) gb" by simp
  from affinityInvD1 [OF a m t] have pos: "0 < sint (affinityCnt ref)" .
  then have "- (2 ^ 31) < sint (affinityCnt ref)" by simp
  from sint32_decr [OF this] have dec: "sint (affinityCnt ref - 1) = sint (affinityCnt ref) - 1"
    by simp
  have "unbindSubConn k gb =
     Inr (gb\<lparr>scRefs := AList.update sc (ref\<lparr>affinityCnt := affinityCnt ref - 1\<rparr>) (scRefs gb),
             affinityMap := (if sint (affinityCnt ref - 1) \<le> 0
                             then AList.delete k (affinityMap gb) else affinityMap gb)\<rparr>)"
    by (rule unbindSubConn_tracked [OF m t])
  with m dec have "\<exists>g'. unbindSubConn k gb = Inr g'
      \<and> (map_of (affinityMap g') k = Some sc) = (0 < sint (affinityCnt ref) - 1)
      \<and> (map_of (affinityMap g') k = None) = (sint (affinityCnt ref) - 1 \<le> 0)"
    by (auto simp add: delete_conv')
  with pos show "0 < sint (affinityCnt ref)
      \<and> (\<exists>g'. unbindSubConn k gb = Inr g'
            \<and> (map_of (affinityMap g') k = Some sc) = (0 < sint (affinityCnt ref) - 1)
            \<and> (map_of (affinityMap g') k = None) = (sint (affinityCnt ref) - 1 \<le> 0))"
    by simp
qed

text \<open>The equations that evaluate the usage predicates.\<close>

lemmas usage_defs = oneKeyPerHandle_def freshCreated_def freshHandle_def

theorem C5_counts_nonnegative_witness:
  "disciplined Build [EvNewSubConn (Inr 1), EvBindSubConn ''a'' 1, EvStreamsIncr 1,
       EvBindSubConn ''a'' 1, EvStreamsDecr 1, EvUnbindSubConn ''a'']
   \<and> streamsPaired Build [EvNewSubConn (Inr 1), EvBindSubConn ''a'' 1, EvStreamsIncr 1,
       EvBindSubConn ''a'' 1, EvStreamsDecr 1, EvUnbindSubConn ''a'']
   \<and> (\<exists>gb ref. run Build [EvNewSubConn (Inr 1), EvBindSubConn ''a'' 1, EvStreamsIncr 1,
          EvBindSubConn ''a'' 1, EvStreamsDecr 1, EvUnbindSubConn ''a''] = Inr gb
        \<and> map_of (scRefs gb) 1 = Some ref
        \<and> 0 \<le> sint (affinityCnt ref) \<and> 0 \<le> sint (streamsCnt ref))"
proof -
  let ?es = "[EvNewSubConn (Inr 1), EvBindSubConn ''a'' 1, EvStreamsIncr 1,
       EvBindSubConn ''a'' 1, EvStreamsDecr 1, EvUnbindSubConn ''a'']"
  have d: "disciplined Build ?es"
    by (simp add: eval_defs usage_defs)
  have p: "streamsPaired Build ?es"
    by (simp add: eval_defs)
  have l: "length ?es < 2 ^ 31" by simp
  have "\<exists>gb ref. run Build ?es = Inr gb \<and> map_of (scRefs gb) 1 = Some ref"
    by (simp add: eval_defs)
  then obtain gb ref where r: "run Build ?es = Inr gb" and t: "map_of (scRefs gb) 1 = Some ref"
    by blast
  from C5_counts_nonnegative [OF r d p l]
  have "\<exists>g. run Build (take 6 ?es) = Inr g
           \<and> (\<forall>sc ref. map_of (scRefs g) sc = Some ref
                 \<longrightarrow> 0 \<le> sint (affinityCnt ref) \<and> 0 \<le> sint (streamsCnt ref))" ..
  then obtain g where "run Build (take 6 ?es) = Inr g"
    and n: "\<forall>sc ref. map_of (scRefs g) sc = Some ref
                 \<longrightarrow> 0 \<le> sint (affinityCnt ref) \<and> 0 \<le> sint (streamsCnt ref)"
    by blast
  with r have "g = gb" by simp
  with n t have "0 \<le> sint (affinityCnt ref) \<and> 0 \<le> sint (streamsCnt ref)" by blast
  with d p r t show ?thesis by blast
qed

text \<open>
  C5 as stated fails: with two keys bound to one connection, unbinding the first key
  twice uses up the count of the second, and unbinding the second key then takes the
  affinity count to \<open>- 1\<close>.
\<close>

theorem C5_counterexample:
  "map_sum id (\<lambda>gb. map_option (\<lambda>ref. sint (affinityCnt ref)) (map_of (scRefs gb) 1))
     (run Build [EvNewSubConn (Inr 1), EvBindSubConn ''a'' 1, EvBindSubConn ''b'' 1,
                 EvUnbindSubConn ''a'', EvUnbindSubConn ''a'', EvUnbindSubConn ''b''])
     = Inr (Some (- 1))"
  by (simp add: eval_defs)

theorem C6_bound_key_positive_witness:
  "disciplined Build [EvNewSubConn (Inr 1), EvBindSubConn ''a'' 1, EvBindSubConn ''a'' 1,
       EvUnbindSubConn ''a'']
   \<and> (\<exists>gb ref. run Build [EvNewSubConn (Inr 1), EvBindSubConn ''a'' 1, EvBindSubConn ''a'' 1,
          EvUnbindSubConn ''a''] = Inr gb
        \<and> map_of (affinityMap gb) ''a'' = Some 1 \<and> map_of (scRefs gb) 1 = Some ref
        \<and> 0 < sint (affinityCnt ref))"
proof -
  let ?es = "[EvNewSubConn (Inr 1), EvBindSubConn ''a'' 1, EvBindSubConn ''a'' 1,
       EvUnbindSubConn ''a'']"
  have d: "disciplined Build ?es"
    by (simp add: eval_defs usage_defs)
  have l: "length ?es < 2 ^ 31" by simp
  have "\<exists>gb ref. run Build ?es = Inr gb \<and> map_of (affinityMap gb) ''a'' = Some 1
      \<and> map_of (scRefs gb) 1 = Some ref"
    by (simp add: eval_defs)
  then obtain gb ref where r: "run Build ?es = Inr gb"
    and m: "map_of (affinityMap gb) ''a'' = Some 1" and t: "map_of (scRefs gb) 1 = Some ref"
    by blast
  from C6_bound_key_positive [OF r d l] m t
  have "0 < sint (affinityCnt ref)" by blast
  with d r m t show ?thesis by blast
qed

text \<open>
  C6 as stated fails: after the same two bindings and two unbinds of the first key, the
  second key is still in the affinity table and the affinity count of its connection
  is 0.
\<close>

theorem C6_counterexample:
  "map_sum id (\<lambda>gb. (map_of (affinityMap gb) ''b'',
                     map_option (\<lambda>ref. sint (affinityCnt ref)) (map_of (scRefs gb) 1)))
     (run Build [EvNewSubConn (Inr 1), EvBindSubConn ''a'' 1, EvBindSubConn ''b'' 1,
                 EvUnbindSubConn ''a'', EvUnbindSubConn ''a''])
     = Inr (Some 1, Some 0)"
  by (simp add: eval_defs)

end
